theory Spec2Isabelle
  imports Complex_Main "HOL-Library.Multiset"
begin

section \<open>Tiles and the fixed-size board (common/backend/grid/grid.go)\<close>

text \<open>
  A tile identity is a UUID drawn from \<^verbatim>\<open>uuid.NewV7()\<close>.  The generator is modelled
  as a counter that is threaded through every function that creates identities: the
  call returns the counter and increments it, so each generated identity differs from
  all identities generated before it.

  Tile values are Go \<^verbatim>\<open>int\<close>s; the model takes the 64 bits that an \<^verbatim>\<open>int\<close> has on a
  64-bit platform.  A value is an integer of the model; the one addition the code
  performs on tile values, \<^verbatim>\<open>g[newPos].Val += g[i].Val\<close>, wraps around as Go's does:
  \<open>addInt\<close> gives the sum reduced to the interval from \<open>- 2 ^ 63\<close> to \<open>2 ^ 63 - 1\<close>.
\<close>

definition wrapInt :: "int \<Rightarrow> int" where
  "wrapInt x = (x + 2 ^ 63) mod 2 ^ 64 - 2 ^ 63"

definition addInt :: "int \<Rightarrow> int \<Rightarrow> int" where
  "addInt a b = wrapInt (a + b)"

type_synonym uuid = nat

record Tile =
  Val :: int
  Cmb :: bool
  UUID :: uuid

definition emptyTile :: int where
  "emptyTile = 0"

definition GridSize :: int where
  "GridSize = 4"

definition gridWidth :: int where
  "gridWidth = GridSize"

definition gridHeight :: int where
  "gridHeight = GridSize"

text \<open>
  The Go arrays \<^verbatim>\<open>[gridWidth]Tile\<close> and \<^verbatim>\<open>[gridWidth][gridHeight]Tile\<close> have exactly
  four cells.  \<open>at4\<close> reads a cell and \<open>upd4\<close> writes one.  Every index the source
  uses is in range (a loop bound, the explicit guard in \<^verbatim>\<open>moveStep\<close>, or
  \<^verbatim>\<open>rand.Intn(4)\<close>), so the out-of-range panic of Go is never reached; the functions
  map an index outside \<open>0..3\<close> to the last cell and to no write.
\<close>

datatype 'a arr4 = Arr4 'a 'a 'a 'a

fun at4 :: "'a arr4 \<Rightarrow> int \<Rightarrow> 'a" where
  "at4 (Arr4 a b c d) i = (if i = 0 then a else if i = 1 then b else if i = 2 then c else d)"

fun upd4 :: "'a arr4 \<Rightarrow> int \<Rightarrow> 'a \<Rightarrow> 'a arr4" where
  "upd4 (Arr4 a b c d) i v =
     (if i = 0 then Arr4 v b c d else if i = 1 then Arr4 a v c d
      else if i = 2 then Arr4 a b v d else if i = 3 then Arr4 a b c v else Arr4 a b c d)"

fun list4 :: "'a arr4 \<Rightarrow> 'a list" where
  "list4 (Arr4 a b c d) = [a, b, c, d]"

type_synonym row = "Tile arr4"
type_synonym tiles = "Tile arr4 arr4"

definition at2 :: "tiles \<Rightarrow> int \<Rightarrow> int \<Rightarrow> Tile" where
  "at2 t i j = at4 (at4 t i) j"

definition upd2 :: "tiles \<Rightarrow> int \<Rightarrow> int \<Rightarrow> Tile \<Rightarrow> tiles" where
  "upd2 t i j v = upd4 t i (upd4 (at4 t i) j v)"

type_synonym Direction = string

definition DirUp :: Direction where "DirUp = ''up''"
definition DirDown :: Direction where "DirDown = ''down''"
definition DirLeft :: Direction where "DirLeft = ''left''"
definition DirRight :: Direction where "DirRight = ''right''"

record Grid =
  Tiles :: tiles
  LastMove :: Direction

text \<open>\<^verbatim>\<open>transpose\<close>: \<open>transposed[j][i] = matrix[i][j]\<close>.\<close>

fun transpose_tiles :: "tiles \<Rightarrow> tiles" where
  "transpose_tiles (Arr4 (Arr4 a0 a1 a2 a3) (Arr4 b0 b1 b2 b3)
                         (Arr4 c0 c1 c2 c3) (Arr4 d0 d1 d2 d3)) =
     Arr4 (Arr4 a0 b0 c0 d0) (Arr4 a1 b1 c1 d1) (Arr4 a2 b2 c2 d2) (Arr4 a3 b3 c3 d3)"

subsection \<open>One step of a move on a row: \<^verbatim>\<open>moveStep\<close>\<close>

text \<open>
  Modelled from the spec: the iterator \<^verbatim>\<open>newIter\<close>/\<^verbatim>\<open>hasNext\<close>/\<^verbatim>\<open>next\<close> is not among
  the sources.  The spec says the cells are scanned in the direction of travel, with the
  iteration order reversed for Right and Down: the iterator yields the indices
  \<open>0, ..., n - 1\<close>, from the last to the first when \<open>reverse\<close> is set.
\<close>

definition newIter :: "nat \<Rightarrow> bool \<Rightarrow> int list" where
  "newIter n reverse = (if reverse then rev (map int [0..<n]) else map int [0..<n])"

text \<open>
  One iteration of the \<^verbatim>\<open>for iter.hasNext()\<close> loop of \<^verbatim>\<open>moveStep\<close>, at index \<open>i\<close>.
  \<open>Some\<close> is a \<^verbatim>\<open>return\<close>; \<open>None\<close> is a \<^verbatim>\<open>continue\<close>, or the end of the loop body, and
  leaves the row as it is.  The result of a return is the row, whether a tile moved, the
  points, and the state of the identity generator.
\<close>

definition moveStepAt :: "bool \<Rightarrow> int \<Rightarrow> row \<Rightarrow> uuid \<Rightarrow> (row \<times> bool \<times> int \<times> uuid) option" where
  "moveStepAt reverse i g u =
     (let newPos = (if reverse then i + 1 else i - 1) in
      if newPos < 0 \<or> newPos \<ge> 4 then None
      else if Val (at4 g i) = emptyTile then None
      else
        let alreadyCombined = (Cmb (at4 g i) \<or> Cmb (at4 g newPos)) in
        if Val (at4 g newPos) = Val (at4 g i) \<and> \<not> alreadyCombined then
          let g1 = upd4 g newPos ((at4 g newPos)\<lparr>Val := addInt (Val (at4 g newPos)) (Val (at4 g i))\<rparr>);
              g2 = upd4 g1 newPos ((at4 g1 newPos)\<lparr>Cmb := True\<rparr>);
              g3 = upd4 g2 newPos ((at4 g2 newPos)\<lparr>UUID := u\<rparr>);
              valAfterCombine = Val (at4 g3 newPos);
              g4 = upd4 g3 i ((at4 g3 i)\<lparr>Val := emptyTile\<rparr>);
              g5 = upd4 g4 i ((at4 g4 i)\<lparr>UUID := u + 1\<rparr>)
          in Some (g5, True, valAfterCombine, u + 2)
        else if Val (at4 g newPos) \<noteq> emptyTile then None
        else if Val (at4 g newPos) = emptyTile then
          let g1 = upd4 g newPos (at4 g i);
              g2 = upd4 g1 i \<lparr>Val = 0, Cmb = False, UUID = u\<rparr>
          in Some (g2, True, 0, u + 1)
        else None)"

text \<open>The loop itself, by recursion on the indices the iterator still has to yield.\<close>

fun moveStepLoop :: "bool \<Rightarrow> int list \<Rightarrow> row \<Rightarrow> uuid \<Rightarrow> row \<times> bool \<times> int \<times> uuid" where
  "moveStepLoop reverse [] g u = (g, False, 0, u)"
| "moveStepLoop reverse (i # rest) g u =
     (case moveStepAt reverse i g u of
        Some r \<Rightarrow> r
      | None \<Rightarrow> moveStepLoop reverse rest g u)"

definition moveStep :: "row \<Rightarrow> Direction \<Rightarrow> uuid \<Rightarrow> row \<times> bool \<times> int \<times> uuid" where
  "moveStep g dir u =
     (let reverse = (if dir = DirRight \<or> dir = DirDown then True else False)
      in moveStepLoop reverse (newIter 4 reverse) g u)"

subsection \<open>The whole move: \<^verbatim>\<open>move\<close>\<close>

text \<open>The variables of \<^verbatim>\<open>move\<close> that its loops read and write.\<close>

record moveState =
  mTiles :: tiles
  moved :: bool
  pointsGained :: int
  movedThisTurn :: bool
  nextUUID :: uuid

text \<open>The body of \<^verbatim>\<open>for row := range gridHeight\<close>.\<close>

definition rowBody :: "Direction \<Rightarrow> moveState \<Rightarrow> int \<Rightarrow> moveState" where
  "rowBody dir st row =
     (let t1 = (if dir = DirUp \<or> dir = DirDown then transpose_tiles (mTiles st) else mTiles st);
          (r, rowMoved, points, u) = moveStep (at4 t1 row) dir (nextUUID st);
          t2 = upd4 t1 row r;
          pg = (if points > 0 then points else pointsGained st);
          t3 = (if dir = DirUp \<or> dir = DirDown then transpose_tiles t2 else t2)
      in \<lparr>mTiles = t3,
          moved = (if rowMoved then True else moved st),
          pointsGained = pg,
          movedThisTurn = (if rowMoved then True else movedThisTurn st),
          nextUUID = u\<rparr>)"

definition rowRange :: "int list" where
  "rowRange = map int [0..<nat gridHeight]"

text \<open>One pass of the outer \<^verbatim>\<open>for\<close> loop: all four rows, from \<open>movedThisTurn = false\<close>.\<close>

definition movePass :: "Direction \<Rightarrow> moveState \<Rightarrow> moveState" where
  "movePass dir st = foldl (rowBody dir) (st\<lparr>movedThisTurn := False\<rparr>) rowRange"

text \<open>\<^verbatim>\<open>ClearCmbFlags\<close>, and the same double loop at the head of \<^verbatim>\<open>move\<close>.\<close>

definition clearTile :: "Tile \<Rightarrow> Tile" where
  "clearTile t = t\<lparr>Cmb := False\<rparr>"

fun map4 :: "('a \<Rightarrow> 'b) \<Rightarrow> 'a arr4 \<Rightarrow> 'b arr4" where
  "map4 f (Arr4 a b c d) = Arr4 (f a) (f b) (f c) (f d)"

definition ClearCmbFlags :: "tiles \<Rightarrow> tiles" where
  "ClearCmbFlags t = map4 (map4 clearTile) t"

text \<open>
  The outer \<^verbatim>\<open>for\<close> loop runs passes until one moves nothing.  Its termination needs a
  measure: every cell that holds a tile weighs its distance from the wall the tiles
  travel to (plus one), and the potential of a board is the sum of the weights.
\<close>

definition weight :: "bool \<Rightarrow> int \<Rightarrow> nat" where
  "weight reverse j = (if reverse then nat (4 - j) else nat (j + 1))"

definition cellPot :: "bool \<Rightarrow> row \<Rightarrow> int \<Rightarrow> nat" where
  "cellPot reverse g j = (if Val (at4 g j) \<noteq> emptyTile then weight reverse j else 0)"

definition rowPot :: "bool \<Rightarrow> row \<Rightarrow> nat" where
  "rowPot reverse g =
     cellPot reverse g 0 + cellPot reverse g 1 + cellPot reverse g 2 + cellPot reverse g 3"

definition tilesPot :: "bool \<Rightarrow> tiles \<Rightarrow> nat" where
  "tilesPot reverse t =
     rowPot reverse (at4 t 0) + rowPot reverse (at4 t 1) +
     rowPot reverse (at4 t 2) + rowPot reverse (at4 t 3)"

definition potential :: "Direction \<Rightarrow> tiles \<Rightarrow> nat" where
  "potential dir t = tilesPot (dir = DirRight \<or> dir = DirDown)
      (if dir = DirUp \<or> dir = DirDown then transpose_tiles t else t)"

lemma newIter4: "newIter 4 reverse = (if reverse then [3, 2, 1, 0] else [0, 1, 2, 3])"
  by (simp add: newIter_def upt_rec numeral_eq_Suc)

lemma rowRange_eq: "rowRange = [0, 1, 2, 3]"
  by (simp add: rowRange_def gridHeight_def GridSize_def upt_rec numeral_eq_Suc)

lemma moveStep_eq:
  "moveStep g dir u =
     moveStepLoop (dir = DirRight \<or> dir = DirDown)
       (newIter 4 (dir = DirRight \<or> dir = DirDown)) g u"
  by (simp add: moveStep_def)

lemma transpose_tiles_invol [simp]: "transpose_tiles (transpose_tiles t) = t"
proof -
  obtain r0 r1 r2 r3 where t: "t = Arr4 r0 r1 r2 r3" by (cases t)
  obtain a0 a1 a2 a3 where r0: "r0 = Arr4 a0 a1 a2 a3" by (cases r0)
  obtain b0 b1 b2 b3 where r1: "r1 = Arr4 b0 b1 b2 b3" by (cases r1)
  obtain c0 c1 c2 c3 where r2: "r2 = Arr4 c0 c1 c2 c3" by (cases r2)
  obtain d0 d1 d2 d3 where r3: "r3 = Arr4 d0 d1 d2 d3" by (cases r3)
  show ?thesis by (simp add: t r0 r1 r2 r3)
qed

lemma moveStepAt_pot:
  assumes "moveStepAt reverse i g u = Some (g', m, p, u')" "i \<in> {0, 1, 2, 3}"
  shows "rowPot reverse g' < rowPot reverse g \<and> m"
  using assms
  by (cases g)
    (auto simp: moveStepAt_def rowPot_def cellPot_def weight_def emptyTile_def Let_def
      split: if_splits)

lemma moveStepLoop_pot:
  assumes "moveStepLoop reverse is g u = (g', m, p, u')" "set is \<subseteq> {0, 1, 2, 3}"
  shows "(m \<longrightarrow> rowPot reverse g' < rowPot reverse g) \<and>
         (\<not> m \<longrightarrow> g' = g \<and> p = 0 \<and> u' = u)"
  using assms
proof (induction "is")
  case Nil
  then show ?case by simp
next
  case (Cons i rest)
  show ?case
  proof (cases "moveStepAt reverse i g u")
    case None
    with Cons show ?thesis by simp
  next
    case (Some r)
    with Cons.prems have "moveStepAt reverse i g u = Some (g', m, p, u')" by simp
    from moveStepAt_pot[OF this] Cons.prems(2) show ?thesis by simp
  qed
qed

lemma moveStep_pot:
  assumes "moveStep g dir u = (g', m, p, u')"
  shows "(m \<longrightarrow> rowPot (dir = DirRight \<or> dir = DirDown) g'
               < rowPot (dir = DirRight \<or> dir = DirDown) g) \<and>
         (\<not> m \<longrightarrow> g' = g \<and> p = 0 \<and> u' = u)"
proof -
  have "set (newIter 4 (dir = DirRight \<or> dir = DirDown)) \<subseteq> {0, 1, 2, 3}"
    by (auto simp: newIter4)
  with assms show ?thesis
    unfolding moveStep_eq by (rule moveStepLoop_pot)
qed

lemma tilesPot_upd4:
  assumes "row \<in> {0, 1, 2, 3}"
  shows "tilesPot reverse (upd4 t row r) + rowPot reverse (at4 t row) =
         tilesPot reverse t + rowPot reverse r"
  using assms by (cases t) (auto simp: tilesPot_def)

lemma rowBody_pot:
  assumes "row \<in> {0, 1, 2, 3}"
  shows "(if movedThisTurn (rowBody dir st row) \<and> \<not> movedThisTurn st
          then potential dir (mTiles (rowBody dir st row)) < potential dir (mTiles st)
          else potential dir (mTiles (rowBody dir st row)) \<le> potential dir (mTiles st))"
proof -
  define t1 where
    "t1 = (if dir = DirUp \<or> dir = DirDown then transpose_tiles (mTiles st) else mTiles st)"
  obtain r m p u where ms: "moveStep (at4 t1 row) dir (nextUUID st) = (r, m, p, u)"
    by (metis prod_cases4)
  note P = moveStep_pot[OF ms]
  have pot1: "potential dir (mTiles st) = tilesPot (dir = DirRight \<or> dir = DirDown) t1"
    by (simp add: potential_def t1_def)
  have pot2: "potential dir (mTiles (rowBody dir st row)) =
              tilesPot (dir = DirRight \<or> dir = DirDown) (upd4 t1 row r)"
    using ms by (simp add: potential_def rowBody_def Let_def t1_def[symmetric])
  have mt: "movedThisTurn (rowBody dir st row) = (m \<or> movedThisTurn st)"
    using ms by (simp add: rowBody_def Let_def t1_def[symmetric])
  from tilesPot_upd4[OF assms, of "dir = DirRight \<or> dir = DirDown" t1 r] P
  show ?thesis unfolding pot1 pot2 mt by (cases m) auto
qed

lemma foldl_rowBody_pot:
  assumes "set rows \<subseteq> {0, 1, 2, 3}"
  shows "(if movedThisTurn (foldl (rowBody dir) st rows) \<and> \<not> movedThisTurn st
          then potential dir (mTiles (foldl (rowBody dir) st rows)) < potential dir (mTiles st)
          else potential dir (mTiles (foldl (rowBody dir) st rows)) \<le> potential dir (mTiles st))"
  using assms
proof (induction rows arbitrary: st)
  case Nil
  then show ?case by simp
next
  case (Cons row rows)
  have r: "row \<in> {0, 1, 2, 3}" and rs: "set rows \<subseteq> {0, 1, 2, 3}"
    using Cons.prems by auto
  from rowBody_pot[OF r, of dir st] Cons.IH[OF rs, of "rowBody dir st row"]
  show ?case by (auto split: if_splits)
qed

lemma movePass_pot:
  "movedThisTurn (movePass dir st) \<Longrightarrow>
   potential dir (mTiles (movePass dir st)) < potential dir (mTiles st)"
  using foldl_rowBody_pot[of rowRange dir "st\<lparr>movedThisTurn := False\<rparr>"]
  by (simp add: movePass_def rowRange_eq)

text \<open>The outer loop \<^verbatim>\<open>for { ... if !movedThisTurn { break } }\<close>.\<close>

function moveLoop :: "Direction \<Rightarrow> moveState \<Rightarrow> moveState" where
  "moveLoop dir st =
     (let st' = movePass dir st in
      if \<not> movedThisTurn st' then st' else moveLoop dir st')"
  by pat_completeness auto
termination
  by (relation "measure (\<lambda>(dir, st). potential dir (mTiles st))") (auto simp: movePass_pot)

declare moveLoop.simps [simp del]

text \<open>
  \<^verbatim>\<open>move\<close>: clear the flags, run the loop, return \<open>moved\<close> and \<open>pointsGained\<close>.  The
  grid it mutates and the identity generator are returned as well.
\<close>

definition move :: "Grid \<Rightarrow> Direction \<Rightarrow> uuid \<Rightarrow> Grid \<times> bool \<times> int \<times> uuid" where
  "move g dir u =
     (let st = moveLoop dir \<lparr>mTiles = ClearCmbFlags (Tiles g), moved = False,
                            pointsGained = 0, movedThisTurn = False, nextUUID = u\<rparr>
      in (g\<lparr>Tiles := mTiles st\<rparr>, moved st, pointsGained st, nextUUID st))"

subsection \<open>The random source, \<^verbatim>\<open>spawnTile\<close>, \<^verbatim>\<open>Move\<close> and \<^verbatim>\<open>Reset\<close>\<close>

text \<open>
  The process-wide source of \<^verbatim>\<open>math/rand\<close> is an input of the model: a tape holding
  the numbers that the successive calls of \<^verbatim>\<open>rand.Intn\<close> draw (reduced modulo the
  argument of the call) and the results of the successive calls of \<^verbatim>\<open>rand.Float64\<close>.
  A call on an exhausted tape has no result (\<open>None\<close>): a retry loop that returns \<open>None\<close>
  on a tape would still be running after all the draws of that tape.
\<close>

record rnd =
  ints :: "nat list"
  floats :: "real list"

definition randIntn :: "int \<Rightarrow> rnd \<Rightarrow> (int \<times> rnd) option" where
  "randIntn n r = (case ints r of [] \<Rightarrow> None | k # ks \<Rightarrow> Some (int k mod n, r\<lparr>ints := ks\<rparr>))"

definition randFloat64 :: "rnd \<Rightarrow> (real \<times> rnd) option" where
  "randFloat64 r = (case floats r of [] \<Rightarrow> None | f # fs \<Rightarrow> Some (f, r\<lparr>floats := fs\<rparr>))"

definition newTileVal :: "rnd \<Rightarrow> (int \<times> rnd) option" where
  "newTileVal r =
     (case randFloat64 r of
        None \<Rightarrow> None
      | Some (f, r') \<Rightarrow> Some (if f \<ge> 0.9 then 4 else 2, r'))"

lemma randIntn_shorter:
  "randIntn n r = Some (x, r') \<Longrightarrow> length (ints r') < length (ints r)"
  by (auto simp: randIntn_def split: list.splits)

text \<open>The loop \<^verbatim>\<open>for g.Tiles[x][y].Val != emptyTile { x, y = ... }\<close> of \<^verbatim>\<open>spawnTile\<close>.\<close>

function spawnRetry :: "tiles \<Rightarrow> int \<Rightarrow> int \<Rightarrow> rnd \<Rightarrow> (int \<times> int \<times> rnd) option" where
  "spawnRetry t x y r =
     (if Val (at2 t x y) \<noteq> emptyTile then
        (case randIntn gridWidth r of
           None \<Rightarrow> None
         | Some (x', r1) \<Rightarrow>
             (case randIntn gridHeight r1 of
                None \<Rightarrow> None
              | Some (y', r2) \<Rightarrow> spawnRetry t x' y' r2))
      else Some (x, y, r))"
  by pat_completeness auto
termination
  by (relation "measure (\<lambda>(t, x, y, r). length (ints r))")
    (auto dest!: randIntn_shorter)

declare spawnRetry.simps [simp del]

definition spawnTile :: "Grid \<Rightarrow> rnd \<Rightarrow> uuid \<Rightarrow> (Grid \<times> rnd \<times> uuid) option" where
  "spawnTile g r u =
     (case randIntn gridWidth r of
        None \<Rightarrow> None
      | Some (x0, r1) \<Rightarrow>
     (case randIntn gridHeight r1 of
        None \<Rightarrow> None
      | Some (y0, r2) \<Rightarrow>
     (case spawnRetry (Tiles g) x0 y0 r2 of
        None \<Rightarrow> None
      | Some (x, y, r3) \<Rightarrow>
     (case newTileVal r3 of
        None \<Rightarrow> None
      | Some (v, r4) \<Rightarrow>
          let t1 = upd2 (Tiles g) x y ((at2 (Tiles g) x y)\<lparr>Val := v\<rparr>);
              t2 = upd2 t1 x y ((at2 t1 x y)\<lparr>UUID := u\<rparr>)
          in Some (g\<lparr>Tiles := t2\<rparr>, r4, u + 1)))))"

text \<open>
  \<^verbatim>\<open>Move\<close>.  The mutex is not modelled: the function is the critical section.  The
  result is the grid, the points, and what is left of the random tape and of the
  identity generator.
\<close>

definition Move :: "Grid \<Rightarrow> Direction \<Rightarrow> rnd \<Rightarrow> uuid \<Rightarrow> (Grid \<times> int \<times> rnd \<times> uuid) option" where
  "Move g dir r u =
     (let (g1, didMove, pointsGained, u1) = move g dir u in
      if didMove then
        (case spawnTile g1 r u1 of
           None \<Rightarrow> None
         | Some (g2, r2, u2) \<Rightarrow> Some (g2\<lparr>LastMove := dir\<rparr>, pointsGained, r2, u2))
      else Some (g1\<lparr>LastMove := dir\<rparr>, pointsGained, r, u1))"

text \<open>\<^verbatim>\<open>NewTiles\<close>: sixteen empty tiles, each with an identity of its own, row by row.\<close>

definition NewTiles :: "uuid \<Rightarrow> tiles \<times> uuid" where
  "NewTiles u =
     (let e = (\<lambda>k. \<lparr>Val = 0, Cmb = False, UUID = u + k\<rparr>) in
      (Arr4 (Arr4 (e 0) (e 1) (e 2) (e 3)) (Arr4 (e 4) (e 5) (e 6) (e 7))
            (Arr4 (e 8) (e 9) (e 10) (e 11)) (Arr4 (e 12) (e 13) (e 14) (e 15)),
       u + 16))"

text \<open>The loop \<^verbatim>\<open>for reflect.DeepEqual(tile1, tile2) { tile2 = ... }\<close> of \<^verbatim>\<open>Reset\<close>.\<close>

function resetRetry :: "int \<times> int \<Rightarrow> int \<times> int \<Rightarrow> rnd \<Rightarrow> ((int \<times> int) \<times> rnd) option" where
  "resetRetry tile1 tile2 r =
     (if tile1 = tile2 then
        (case randIntn gridWidth r of
           None \<Rightarrow> None
         | Some (x', r1) \<Rightarrow>
             (case randIntn gridHeight r1 of
                None \<Rightarrow> None
              | Some (y', r2) \<Rightarrow> resetRetry tile1 (x', y') r2))
      else Some (tile2, r))"
  by pat_completeness auto
termination
  by (relation "measure (\<lambda>(t1, t2, r). length (ints r))")
    (auto dest!: randIntn_shorter)

declare resetRetry.simps [simp del]

definition Reset :: "Grid \<Rightarrow> rnd \<Rightarrow> uuid \<Rightarrow> (Grid \<times> rnd \<times> uuid) option" where
  "Reset g r u =
     (let (t0, u1) = NewTiles u in
     (case randIntn gridWidth r of None \<Rightarrow> None | Some (x1, r1) \<Rightarrow>
     (case randIntn gridHeight r1 of None \<Rightarrow> None | Some (y1, r2) \<Rightarrow>
     (case randIntn gridWidth r2 of None \<Rightarrow> None | Some (x2, r3) \<Rightarrow>
     (case randIntn gridHeight r3 of None \<Rightarrow> None | Some (y2, r4) \<Rightarrow>
     (case resetRetry (x1, y1) (x2, y2) r4 of None \<Rightarrow> None | Some (tile2, r5) \<Rightarrow>
     (case newTileVal r5 of None \<Rightarrow> None | Some (v1, r6) \<Rightarrow>
        let t1 = upd2 t0 x1 y1 ((at2 t0 x1 y1)\<lparr>Val := v1\<rparr>) in
     (case newTileVal r6 of None \<Rightarrow> None | Some (v2, r7) \<Rightarrow>
        let t2 = upd2 t1 (fst tile2) (snd tile2) ((at2 t1 (fst tile2) (snd tile2))\<lparr>Val := v2\<rparr>)
        in Some (g\<lparr>Tiles := t2\<rparr>, r7, u1)))))))))"

subsection \<open>\<^verbatim>\<open>NumTiles\<close>, \<^verbatim>\<open>isLoss\<close>, \<^verbatim>\<open>HighestTile\<close> and \<^verbatim>\<open>Outcome\<close>\<close>

datatype Outcome = OutcomeNone | Win | Lose

definition cells :: "tiles \<Rightarrow> Tile list" where
  "cells t = concat (map list4 (list4 t))"

definition NumTiles :: "Grid \<Rightarrow> int" where
  "NumTiles g = foldl (\<lambda>n c. if Val c \<noteq> 0 then n + 1 else n) 0 (cells (Tiles g))"

text \<open>
  \<^verbatim>\<open>isLoss\<close>: each of the three double loops returns \<open>false\<close> at the first cell that
  meets its test, which is \<open>list_ex\<close> over the indices of the loops.
\<close>

definition adjacentEqual :: "tiles \<Rightarrow> bool" where
  "adjacentEqual t =
     list_ex (\<lambda>i. list_ex (\<lambda>j. Val (at2 t i j) = Val (at2 t i (j + 1)))
                     (map int [0..<nat (gridWidth - 1)]))
             (map int [0..<nat gridHeight])"

definition isLoss :: "Grid \<Rightarrow> bool" where
  "isLoss g =
     (if list_ex (\<lambda>i. list_ex (\<lambda>j. Val (at2 (Tiles g) i j) = emptyTile)
                        (map int [0..<nat gridWidth]))
                 (map int [0..<nat gridHeight])
      then False
      else if adjacentEqual (Tiles g) then False
      else let t = transpose_tiles (Tiles g) in
        if adjacentEqual t then False else True)"

definition HighestTile :: "Grid \<Rightarrow> int" where
  "HighestTile g = foldl (\<lambda>highest c. if Val c > highest then Val c else highest) 0
                     (cells (Tiles g))"

definition Outcome :: "Grid \<Rightarrow> Outcome" where
  "Outcome g = (if isLoss g then Lose else if HighestTile g \<ge> 2048 then Win else OutcomeNone)"

section \<open>Boards given by their values\<close>

text \<open>
  \<open>gridOf\<close> builds a grid from the values of its cells: no tile is flagged as combined,
  the identities are \<open>0, ..., 15\<close> row by row, and \<open>LastMove\<close> is the zero value of
  its type.  \<open>vals\<close> reads the values back.
\<close>

definition tileOf :: "int \<Rightarrow> uuid \<Rightarrow> Tile" where
  "tileOf v k = \<lparr>Val = v, Cmb = False, UUID = k\<rparr>"

definition rowOf :: "int arr4 \<Rightarrow> uuid \<Rightarrow> row" where
  "rowOf v k = (case v of Arr4 a b c d \<Rightarrow>
     Arr4 (tileOf a k) (tileOf b (k + 1)) (tileOf c (k + 2)) (tileOf d (k + 3)))"

definition gridOf :: "int arr4 arr4 \<Rightarrow> Grid" where
  "gridOf v = \<lparr>Tiles = Arr4 (rowOf (at4 v 0) 0) (rowOf (at4 v 1) 4)
                             (rowOf (at4 v 2) 8) (rowOf (at4 v 3) 12),
               LastMove = []\<rparr>"

definition vals :: "Grid \<Rightarrow> int arr4 arr4" where
  "vals g = map4 (map4 Val) (Tiles g)"

definition boardC5 :: Grid where
  "boardC5 = gridOf (Arr4 (Arr4 2 2 4 0) (Arr4 0 0 0 0) (Arr4 0 0 0 0) (Arr4 0 0 0 0))"

text \<open>
  A random source for the runs below: it first draws the cell (0, 0), then the cell
  (3, 3), and then the value 2.
\<close>

definition tapeC3 :: rnd where
  "tapeC3 = \<lparr>ints = [0, 0, 3, 3], floats = [1 / 2]\<rparr>"

section \<open>The concrete example of a move to the left\<close>

text \<open>
  Claim C5.  On a board whose first row holds the values 2, 2, 4, 0 (the other rows are
  empty), \<^verbatim>\<open>move\<close> to the left makes the row 4, 4, 0, 0 and returns 4 points: the 4
  made by the merge does not merge with the 4 that was there.  \<^verbatim>\<open>move\<close> to the left
  on the board that results makes the row 8, 0, 0, 0 and returns 8 points.
\<close>

theorem C5_move_left_example:
  "(case move boardC5 DirLeft 16 of (g1, m1, p1, u1) \<Rightarrow>
      vals g1 = Arr4 (Arr4 4 4 0 0) (Arr4 0 0 0 0) (Arr4 0 0 0 0) (Arr4 0 0 0 0) \<and> p1 = 4 \<and>
      (case move g1 DirLeft u1 of (g2, m2, p2, u2) \<Rightarrow>
         vals g2 = Arr4 (Arr4 8 0 0 0) (Arr4 0 0 0 0) (Arr4 0 0 0 0) (Arr4 0 0 0 0) \<and> p2 = 8))"
  by code_simp

section \<open>Facts about one step on a row\<close>

lemma at4_upd4_same: "n \<in> {0,1,2,3} \<Longrightarrow> at4 (upd4 g n x) n = x"
  by (cases g) auto

lemma at4_upd4_other: "i \<in> {0,1,2,3} \<Longrightarrow> n \<noteq> i \<Longrightarrow> at4 (upd4 g n x) i = at4 g i"
  by (cases g) auto

lemma moveStepAt_cases:
  assumes "moveStepAt reverse i g u = Some res" "i \<in> {0,1,2,3}"
  obtains (merge) n where "n = (if reverse then i + 1 else i - 1)" "n \<in> {0,1,2,3}"
      "Val (at4 g i) \<noteq> 0" "Val (at4 g n) = Val (at4 g i)" "\<not> Cmb (at4 g i)" "\<not> Cmb (at4 g n)"
      "res = (upd4 (upd4 g n \<lparr>Val = addInt (Val (at4 g n)) (Val (at4 g i)), Cmb = True, UUID = u\<rparr>) i
                ((at4 g i)\<lparr>Val := 0, UUID := u + 1\<rparr>), True, addInt (Val (at4 g n)) (Val (at4 g i)), u + 2)"
  | (slide) n where "n = (if reverse then i + 1 else i - 1)" "n \<in> {0,1,2,3}"
      "Val (at4 g i) \<noteq> 0" "Val (at4 g n) = 0"
      "res = (upd4 (upd4 g n (at4 g i)) i \<lparr>Val = 0, Cmb = False, UUID = u\<rparr>, True, 0, u + 1)"
proof -
  define n where "n = (if reverse then i + 1 else i - 1)"
  from assms have nr: "n \<in> {0,1,2,3}"
    by (auto simp: moveStepAt_def Let_def n_def split: if_splits)
  then have ni: "n \<noteq> i" using assms(2) by (auto simp: n_def split: if_splits)
  from assms have v: "Val (at4 g i) \<noteq> 0"
    by (auto simp: moveStepAt_def Let_def emptyTile_def split: if_splits)
  show thesis
  proof (cases "Val (at4 g n) = Val (at4 g i) \<and> \<not> (Cmb (at4 g i) \<or> Cmb (at4 g n))")
    case True
    have "res = (upd4 (upd4 g n \<lparr>Val = addInt (Val (at4 g n)) (Val (at4 g i)), Cmb = True, UUID = u\<rparr>) i
                ((at4 g i)\<lparr>Val := 0, UUID := u + 1\<rparr>), True, addInt (Val (at4 g n)) (Val (at4 g i)), u + 2)"
      using assms True nr ni v
      by (cases g) (auto simp add: moveStepAt_def Let_def emptyTile_def n_def[symmetric])
    with True nr v show thesis using merge[of n] by (simp add: n_def)
  next
    case False
    with assms nr v have z: "Val (at4 g n) = 0"
      by (auto simp: moveStepAt_def Let_def emptyTile_def n_def[symmetric] split: if_splits)
    have "res = (upd4 (upd4 g n (at4 g i)) i \<lparr>Val = 0, Cmb = False, UUID = u\<rparr>, True, 0, u + 1)"
      using assms False nr ni v z
      by (auto simp add: moveStepAt_def Let_def emptyTile_def n_def[symmetric] split: if_splits)
    with nr v z show thesis using slide[of n] by (simp add: n_def)
  qed
qed

lemma moveStepLoop_cases:
  obtains (none) "moveStepLoop reverse is g u = (g, False, 0, u)"
                 "\<forall>i\<in>set is. moveStepAt reverse i g u = None"
  | (some) i where "i \<in> set is" "moveStepAt reverse i g u = Some (moveStepLoop reverse is g u)"
proof (induction "is" arbitrary: thesis)
  case Nil
  then show ?case by simp
next
  case (Cons i rest)
  show ?case
  proof (cases "moveStepAt reverse i g u")
    case None
    show ?thesis
    proof (rule Cons.IH)
      assume "moveStepLoop reverse rest g u = (g, False, 0, u)"
        "\<forall>i\<in>set rest. moveStepAt reverse i g u = None"
      with None show ?thesis by (intro Cons.prems(1)) auto
    next
      fix j assume "j \<in> set rest" "moveStepAt reverse j g u = Some (moveStepLoop reverse rest g u)"
      with None show ?thesis by (intro Cons.prems(2)[of j]) auto
    qed
  next
    case (Some r)
    then show ?thesis by (intro Cons.prems(2)[of i]) auto
  qed
qed

lemma moveStep_cases:
  obtains (none) "moveStep g dir u = (g, False, 0, u)"
     "\<forall>i\<in>{0,1,2,3}. moveStepAt (dir = DirRight \<or> dir = DirDown) i g u = None"
  | (some) i where "i \<in> {0,1,2,3}"
      "moveStepAt (dir = DirRight \<or> dir = DirDown) i g u = Some (moveStep g dir u)"
proof (cases rule: moveStepLoop_cases[of "dir = DirRight \<or> dir = DirDown" "newIter 4 (dir = DirRight \<or> dir = DirDown)" g u])
  case none
  then show ?thesis by (intro that(1)) (auto simp: moveStep_eq newIter4 split: if_splits)
next
  case (some i)
  then show ?thesis by (intro that(2)[of i]) (auto simp: moveStep_eq newIter4 split: if_splits)
qed

definition rowSum :: "row \<Rightarrow> int" where
  "rowSum r = sum_list (map Val (list4 r))"

definition sumTiles :: "tiles \<Rightarrow> int" where
  "sumTiles t = sum_list (map rowSum (list4 t))"

lemma rowSum_upd4:
  "n \<in> {0,1,2,3} \<Longrightarrow> rowSum (upd4 g n x) = rowSum g - Val (at4 g n) + Val x"
  by (cases g) (auto simp: rowSum_def)

lemma sumTiles_upd4:
  "n \<in> {0,1,2,3} \<Longrightarrow> sumTiles (upd4 t n r) = sumTiles t - rowSum (at4 t n) + rowSum r"
  by (cases t) (auto simp: sumTiles_def)

lemma sumTiles_transpose [simp]: "sumTiles (transpose_tiles t) = sumTiles t"
proof -
  obtain r0 r1 r2 r3 where t: "t = Arr4 r0 r1 r2 r3" by (cases t)
  obtain a0 a1 a2 a3 where r0: "r0 = Arr4 a0 a1 a2 a3" by (cases r0)
  obtain b0 b1 b2 b3 where r1: "r1 = Arr4 b0 b1 b2 b3" by (cases r1)
  obtain c0 c1 c2 c3 where r2: "r2 = Arr4 c0 c1 c2 c3" by (cases r2)
  obtain d0 d1 d2 d3 where r3: "r3 = Arr4 d0 d1 d2 d3" by (cases r3)
  show ?thesis by (simp add: t r0 r1 r2 r3 sumTiles_def rowSum_def)
qed

text \<open>An invariant of the row body is an invariant of the loop.\<close>

lemma foldl_rowBody_inv:
  assumes "P st" "\<And>s row. row \<in> {0,1,2,3} \<Longrightarrow> P s \<Longrightarrow> P (rowBody dir s row)"
    "set rows \<subseteq> {0,1,2,3}"
  shows "P (foldl (rowBody dir) st rows)"
  using assms(1,3)
proof (induction rows arbitrary: st)
  case Nil then show ?case by simp
next
  case (Cons a rows)
  then show ?case using assms(2)[of a st] by simp
qed

lemma moveLoop_inv:
  assumes "P st" "\<And>s row. row \<in> {0,1,2,3} \<Longrightarrow> P s \<Longrightarrow> P (rowBody dir s row)"
    "\<And>s. P s \<Longrightarrow> P (s\<lparr>movedThisTurn := False\<rparr>)"
  shows "P (moveLoop dir st)"
  using assms
proof (induction dir st rule: moveLoop.induct)
  case (1 dir st)
  have "P (st\<lparr>movedThisTurn := False\<rparr>)" using "1.prems"(1,3) by simp
  then have p: "P (movePass dir st)"
    unfolding movePass_def
    by (rule foldl_rowBody_inv) (simp_all add: "1.prems"(2) rowRange_eq)
  show ?case
  proof (cases "movedThisTurn (movePass dir st)")
    case True
    have "P (moveLoop dir (movePass dir st))"
      by (rule "1.IH"[OF refl _ p]) (use True "1.prems" in simp_all)
    with True show ?thesis by (subst moveLoop.simps) (simp add: Let_def)
  next
    case False
    with p show ?thesis by (subst moveLoop.simps) (simp add: Let_def)
  qed
qed

lemma upd4_at4_same: "upd4 t n (at4 t n) = t"
  by (cases t) auto

definition orient :: "Direction \<Rightarrow> tiles \<Rightarrow> tiles" where
  "orient dir t = (if dir = DirUp \<or> dir = DirDown then transpose_tiles t else t)"

lemma orient_invol [simp]: "orient dir (orient dir t) = t"
  by (simp add: orient_def)

lemma potential_orient: "potential dir t = tilesPot (dir = DirRight \<or> dir = DirDown) (orient dir t)"
  by (simp add: potential_def orient_def)

lemma rowBody_eq:
  "rowBody dir st row =
     (let res = moveStep (at4 (orient dir (mTiles st)) row) dir (nextUUID st) in
      \<lparr>mTiles = orient dir (upd4 (orient dir (mTiles st)) row (fst res)),
       moved = (fst (snd res) \<or> moved st),
       pointsGained = (if fst (snd (snd res)) > 0 then fst (snd (snd res)) else pointsGained st),
       movedThisTurn = (fst (snd res) \<or> movedThisTurn st),
       nextUUID = snd (snd (snd res))\<rparr>)"
  by (simp add: rowBody_def orient_def Let_def split: prod.splits)

lemma rowBody_cases:
  assumes "row \<in> {0,1,2,3}"
  obtains (still) "rowBody dir st row = st"
      "\<not> fst (snd (moveStep (at4 (orient dir (mTiles st)) row) dir (nextUUID st)))"
  | (go) "moved (rowBody dir st row)" "movedThisTurn (rowBody dir st row)"
         "potential dir (mTiles (rowBody dir st row)) < potential dir (mTiles st)"
         "fst (snd (moveStep (at4 (orient dir (mTiles st)) row) dir (nextUUID st)))"
proof -
  define t1 where "t1 = orient dir (mTiles st)"
  obtain r m p u where ms: "moveStep (at4 t1 row) dir (nextUUID st) = (r, m, p, u)"
    by (metis prod_cases4)
  note P = moveStep_pot[OF ms]
  show thesis
  proof (cases m)
    case False
    with P have "r = at4 t1 row" "p = 0" "u = nextUUID st" by auto
    with ms False have "rowBody dir st row = st"
      by (simp add: rowBody_eq t1_def[symmetric] upd4_at4_same) (simp add: t1_def)
    then show thesis using False ms by (intro still) (simp_all add: t1_def)
  next
    case True
    have a: "moved (rowBody dir st row)" "movedThisTurn (rowBody dir st row)"
      using ms True by (simp_all add: rowBody_eq t1_def[symmetric])
    have "mTiles (rowBody dir st row) = orient dir (upd4 t1 row r)"
      using ms by (simp add: rowBody_eq t1_def[symmetric])
    then have "potential dir (mTiles (rowBody dir st row)) < potential dir (mTiles st)"
      using tilesPot_upd4[OF assms, of "dir = DirRight \<or> dir = DirDown" t1 r] P True
      by (simp add: potential_orient t1_def[symmetric])
    then show thesis using a True ms by (intro go) (simp_all add: t1_def)
  qed
qed

text \<open>Either nothing moved and the loop state is the initial one, or the potential fell.\<close>

definition loopRel :: "Direction \<Rightarrow> moveState \<Rightarrow> moveState \<Rightarrow> bool" where
  "loopRel dir st0 s =
     ((movedThisTurn s \<longrightarrow> moved s) \<and>
      (if moved s then potential dir (mTiles s) < potential dir (mTiles st0)
       else s\<lparr>movedThisTurn := False\<rparr> = st0))"

lemma moveLoop_loopRel:
  assumes "\<not> moved st0" "\<not> movedThisTurn st0"
  shows "loopRel dir st0 (moveLoop dir st0)"
proof (rule moveLoop_inv)
  show "loopRel dir st0 st0" using assms by (simp add: loopRel_def)
next
  fix s row assume r: "row \<in> {0,1,2,3::int}" and l: "loopRel dir st0 s"
  from r show "loopRel dir st0 (rowBody dir s row)"
  proof (cases rule: rowBody_cases[where dir = dir and st = s])
    case still
    with l show ?thesis by simp
  next
    case go
    with l show ?thesis by (auto simp: loopRel_def split: if_splits)
  qed
next
  fix s assume "loopRel dir st0 s"
  then show "loopRel dir st0 (s\<lparr>movedThisTurn := False\<rparr>)"
    by (auto simp: loopRel_def split: if_splits)
qed

lemma moveLoop_done: "\<not> movedThisTurn (moveLoop dir st)"
proof (induction dir st rule: moveLoop.induct)
  case (1 dir st)
  then show ?case by (subst moveLoop.simps) (simp add: Let_def)
qed

section \<open>Sums of values, and what \<^verbatim>\<open>spawnTile\<close> does\<close>

text \<open>The sum of the values of the non-empty tiles of a grid.\<close>

definition tileSum :: "Grid \<Rightarrow> int" where
  "tileSum g = sum_list (map Val (filter (\<lambda>c. Val c \<noteq> emptyTile) (cells (Tiles g))))"

lemma sum_list_nonzero: "sum_list (map Val (filter (\<lambda>c. Val c \<noteq> 0) cs)) = sum_list (map Val cs)"
  by (induction cs) auto

lemma tileSum_sumTiles: "tileSum g = sumTiles (Tiles g)"
proof -
  obtain r0 r1 r2 r3 where t: "Tiles g = Arr4 r0 r1 r2 r3" by (cases "Tiles g")
  show ?thesis
    unfolding tileSum_def emptyTile_def sum_list_nonzero
    by (simp add: t cells_def sumTiles_def rowSum_def)
qed

lemma sumTiles_ClearCmbFlags [simp]: "sumTiles (ClearCmbFlags t) = sumTiles t"
proof -
  have r: "rowSum (map4 clearTile r) = rowSum r" for r
    by (cases r) (simp add: rowSum_def clearTile_def)
  show ?thesis by (cases t) (simp add: ClearCmbFlags_def sumTiles_def r)
qed

lemma randIntn_range:
  "randIntn 4 r = Some (x, r') \<Longrightarrow> x \<in> {0,1,2,3}"
proof -
  assume "randIntn 4 r = Some (x, r')"
  then obtain k where "x = int k mod 4" by (auto simp: randIntn_def split: list.splits)
  moreover have "0 \<le> int k mod 4" "int k mod 4 < 4" by simp_all
  ultimately show ?thesis by (auto simp: )
qed

lemma spawnRetry_empty:
  assumes "spawnRetry t x y r = Some (x', y', r')" "x \<in> {0,1,2,3}" "y \<in> {0,1,2,3}"
  shows "Val (at2 t x' y') = 0 \<and> x' \<in> {0,1,2,3} \<and> y' \<in> {0,1,2,3}"
  using assms
proof (induction t x y r rule: spawnRetry.induct)
  case (1 t x y r)
  show ?case
  proof (cases "Val (at2 t x y) \<noteq> emptyTile")
    case False
    with "1.prems" show ?thesis by (simp add: spawnRetry.simps[of t x y r] emptyTile_def)
  next
    case True
    with "1.prems"(1) obtain x1 r1 y1 r2 where
      d: "randIntn gridWidth r = Some (x1, r1)" "randIntn gridHeight r1 = Some (y1, r2)"
      and s: "spawnRetry t x1 y1 r2 = Some (x', y', r')"
      by (auto simp: spawnRetry.simps[of t x y r] split: option.splits)
    from d have "x1 \<in> {0,1,2,3}" "y1 \<in> {0,1,2,3}"
      by (auto simp: gridWidth_def gridHeight_def GridSize_def dest: randIntn_range)
    with "1.IH"[OF True d(1) refl d(2) refl s] show ?thesis by simp
  qed
qed

lemma sumTiles_upd2:
  assumes "x \<in> {0,1,2,3}" "y \<in> {0,1,2,3}"
  shows "sumTiles (upd2 t x y c) = sumTiles t - Val (at2 t x y) + Val c"
  using assms by (simp add: upd2_def at2_def sumTiles_upd4 rowSum_upd4)

lemma at2_upd2_same:
  "x \<in> {0,1,2,3} \<Longrightarrow> y \<in> {0,1,2,3} \<Longrightarrow> at2 (upd2 t x y c) x y = c"
  by (simp add: at2_def upd2_def at4_upd4_same)

lemma upd2_upd2_same:
  "x \<in> {0,1,2,3} \<Longrightarrow> y \<in> {0,1,2,3} \<Longrightarrow> upd2 (upd2 t x y c) x y c' = upd2 t x y c'"
  by (cases t) (auto simp add: upd2_def; (case_tac x1, simp add: )?; (case_tac x2, simp)?; (case_tac x3, simp)?; (case_tac x4, simp)?)

lemma newTileVal_range: "newTileVal r = Some (v, r') \<Longrightarrow> v \<in> {2, 4}"
  by (auto simp: newTileVal_def split: option.splits if_splits)

text \<open>What \<^verbatim>\<open>spawnTile\<close> does when it returns.\<close>

lemma spawnTile_Some:
  assumes "spawnTile g r u = Some (g', r', u')"
  obtains x y v where "x \<in> {0,1,2,3}" "y \<in> {0,1,2,3}" "v \<in> {2, 4}"
    "Val (at2 (Tiles g) x y) = 0"
    "g' = g\<lparr>Tiles := upd2 (Tiles g) x y ((at2 (Tiles g) x y)\<lparr>Val := v, UUID := u\<rparr>)\<rparr>"
    "u' = u + 1"
proof -
  from assms obtain x0 r1 y0 r2 x y r3 v where
    d: "randIntn gridWidth r = Some (x0, r1)" "randIntn gridHeight r1 = Some (y0, r2)"
    and s: "spawnRetry (Tiles g) x0 y0 r2 = Some (x, y, r3)"
    and n: "newTileVal r3 = Some (v, r')"
    and g': "g' = g\<lparr>Tiles := upd2 (upd2 (Tiles g) x y ((at2 (Tiles g) x y)\<lparr>Val := v\<rparr>)) x y
               ((at2 (upd2 (Tiles g) x y ((at2 (Tiles g) x y)\<lparr>Val := v\<rparr>)) x y)\<lparr>UUID := u\<rparr>)\<rparr>"
    and u': "u' = u + 1"
    by (auto simp: spawnTile_def Let_def split: option.splits)
  from d have "x0 \<in> {0,1,2,3}" "y0 \<in> {0,1,2,3}"
    by (auto simp: gridWidth_def gridHeight_def GridSize_def dest: randIntn_range)
  from spawnRetry_empty[OF s this] have e: "Val (at2 (Tiles g) x y) = 0" "x \<in> {0,1,2,3}" "y \<in> {0,1,2,3}"
    by simp_all
  from n have v: "v \<in> {2, 4}" by (rule newTileVal_range)
  show thesis
    by (rule that[of x y v]) (use e v g' u' in \<open>simp_all add: at2_upd2_same upd2_upd2_same\<close>)
qed


lemma move_unmoved:
  assumes "\<not> fst (snd (move g dir u))"
  shows "move g dir u = (g\<lparr>Tiles := ClearCmbFlags (Tiles g)\<rparr>, False, 0, u)"
proof -
  define st0 where "st0 = \<lparr>mTiles = ClearCmbFlags (Tiles g), moved = False,
                            pointsGained = 0, movedThisTurn = False, nextUUID = u\<rparr>"
  have l: "loopRel dir st0 (moveLoop dir st0)"
    by (rule moveLoop_loopRel) (simp_all add: st0_def)
  from assms have nm: "\<not> moved (moveLoop dir st0)"
    by (simp add: move_def Let_def st0_def)
  with l have "(moveLoop dir st0)\<lparr>movedThisTurn := False\<rparr> = st0"
    by (simp add: loopRel_def)
  moreover have "\<not> movedThisTurn (moveLoop dir st0)" by (rule moveLoop_done)
  ultimately have "moveLoop dir st0 = st0" by (cases "moveLoop dir st0") (simp add: st0_def)
  then show ?thesis by (simp add: move_def Let_def st0_def[symmetric]) (simp add: st0_def)
qed

section \<open>A move in a blocked direction\<close>

text \<open>
  What the claim calls a fully blocked move, said of the board alone: no tile has, next
  to it in the direction of travel, a cell of the board that is empty or holds an equal
  value.  Up is towards row 0 and left is towards column 0; a direction that is none of
  the four constants is handled by the code as left is.
\<close>

definition neighbour :: "Direction \<Rightarrow> int \<times> int \<Rightarrow> int \<times> int" where
  "neighbour dir p =
     (if dir = DirUp then (fst p - 1, snd p)
      else if dir = DirDown then (fst p + 1, snd p)
      else if dir = DirRight then (fst p, snd p + 1)
      else (fst p, snd p - 1))"

definition onGrid :: "int \<times> int \<Rightarrow> bool" where
  "onGrid p = (0 \<le> fst p \<and> fst p < 4 \<and> 0 \<le> snd p \<and> snd p < 4)"

definition canMove :: "tiles \<Rightarrow> Direction \<Rightarrow> int \<Rightarrow> int \<Rightarrow> bool" where
  "canMove t dir i j =
     (let n = neighbour dir (i, j) in
      Val (at2 t i j) \<noteq> emptyTile \<and> onGrid n \<and>
      (Val (at2 t (fst n) (snd n)) = emptyTile \<or> Val (at2 t (fst n) (snd n)) = Val (at2 t i j)))"

definition blocked :: "Grid \<Rightarrow> Direction \<Rightarrow> bool" where
  "blocked g dir = (\<not> list_ex (\<lambda>i. list_ex (\<lambda>j. canMove (Tiles g) dir i j) [0, 1, 2, 3]) [0, 1, 2, 3])"

lemma at2_transpose:
  assumes "i \<in> {0,1,2,3}" "j \<in> {0,1,2,3}"
  shows "at2 (transpose_tiles t) i j = at2 t j i"
proof -
  obtain r0 r1 r2 r3 where t: "t = Arr4 r0 r1 r2 r3" by (cases t)
  obtain a0 a1 a2 a3 where r0: "r0 = Arr4 a0 a1 a2 a3" by (cases r0)
  obtain b0 b1 b2 b3 where r1: "r1 = Arr4 b0 b1 b2 b3" by (cases r1)
  obtain c0 c1 c2 c3 where r2: "r2 = Arr4 c0 c1 c2 c3" by (cases r2)
  obtain d0 d1 d2 d3 where r3: "r3 = Arr4 d0 d1 d2 d3" by (cases r3)
  from assms show ?thesis by (auto simp add: t r0 r1 r2 r3 at2_def)
qed

lemma at2_ClearCmbFlags: "at2 (ClearCmbFlags t) i j = clearTile (at2 t i j)"
proof -
  have r: "at4 (map4 f r) k = f (at4 r k)" for f :: "'a \<Rightarrow> 'b" and r k
    by (cases r) simp
  show ?thesis by (simp add: at2_def ClearCmbFlags_def r)
qed

lemma dir_distinct:
  "DirUp \<noteq> DirDown" "DirUp \<noteq> DirLeft" "DirUp \<noteq> DirRight"
  "DirDown \<noteq> DirLeft" "DirDown \<noteq> DirRight" "DirLeft \<noteq> DirRight"
  by (simp_all add: DirUp_def DirDown_def DirLeft_def DirRight_def)

text \<open>Cell \<open>i\<close> of row \<open>row\<close> of the oriented board, as a cell of the board.\<close>

definition cellOf :: "Direction \<Rightarrow> int \<Rightarrow> int \<Rightarrow> int \<times> int" where
  "cellOf dir row i = (if dir = DirUp \<or> dir = DirDown then (i, row) else (row, i))"

lemma at4_orient:
  assumes "row \<in> {0,1,2,3}" "i \<in> {0,1,2,3}"
  shows "at4 (at4 (orient dir t) row) i = at2 t (fst (cellOf dir row i)) (snd (cellOf dir row i))"
  using assms at2_transpose[of row i t]
  by (simp add: orient_def cellOf_def at2_def)

lemma blocked_moveStepAt:
  assumes b: "blocked g dir" and row: "row \<in> {0,1,2,3}" and i: "i \<in> {0,1,2,3}"
  shows "moveStepAt (dir = DirRight \<or> dir = DirDown) i
           (at4 (orient dir (ClearCmbFlags (Tiles g))) row) u = None"
proof -
  define n where "n = (if dir = DirRight \<or> dir = DirDown then i + 1 else i - 1)"
  define R where "R = at4 (orient dir (ClearCmbFlags (Tiles g))) row"
  obtain a b where ab: "cellOf dir row i = (a, b)" by (cases "cellOf dir row i")
  obtain c d where cd: "cellOf dir row n = (c, d)" by (cases "cellOf dir row n")
  have src: "Val (at4 R i) = Val (at2 (Tiles g) a b)"
    unfolding R_def at4_orient[OF row i] ab by (simp add: at2_ClearCmbFlags clearTile_def)
  have nb: "neighbour dir (a, b) = (c, d)"
    using dir_distinct ab cd by (auto simp: neighbour_def cellOf_def n_def split: if_splits)
  have "a \<in> {0,1,2,3}" "b \<in> {0,1,2,3}" using ab row i by (auto simp: cellOf_def split: if_splits)
  then have cm: "\<not> canMove (Tiles g) dir a b"
    using b by (auto simp: blocked_def)
  show ?thesis
  proof (cases "n < 0 \<or> n \<ge> 4")
    case True
    then show ?thesis by (simp add: moveStepAt_def n_def[symmetric] Let_def)
  next
    case False
    then have nr: "n \<in> {0,1,2,3}" by auto
    have dst: "Val (at4 R n) = Val (at2 (Tiles g) c d)"
      unfolding R_def at4_orient[OF row nr] cd by (simp add: at2_ClearCmbFlags clearTile_def)
    have og: "onGrid (c, d)" using nr row cd by (auto simp: onGrid_def cellOf_def split: if_splits)
    from cm og have "Val (at4 R i) = emptyTile \<or> (Val (at4 R n) \<noteq> emptyTile \<and> Val (at4 R n) \<noteq> Val (at4 R i))"
      unfolding canMove_def nb Let_def src dst by auto
    then show ?thesis
      unfolding R_def[symmetric] by (auto simp add: moveStepAt_def n_def[symmetric] Let_def)
  qed
qed

lemma blocked_rowBody:
  assumes "blocked g dir" "row \<in> {0,1,2,3}" "mTiles st = ClearCmbFlags (Tiles g)"
  shows "rowBody dir st row = st"
proof -
  have "moveStep (at4 (orient dir (mTiles st)) row) dir (nextUUID st) =
        (at4 (orient dir (mTiles st)) row, False, 0, nextUUID st)"
  proof (cases rule: moveStep_cases[of "at4 (orient dir (mTiles st)) row" dir "nextUUID st"])
    case none
    then show ?thesis by simp
  next
    case (some i)
    with blocked_moveStepAt[OF assms(1,2), of i "nextUUID st"] assms(3) show ?thesis by simp
  qed
  then show ?thesis by (simp add: rowBody_eq upd4_at4_same)
qed

lemma blocked_move:
  assumes "blocked g dir"
  shows "move g dir u = (g\<lparr>Tiles := ClearCmbFlags (Tiles g)\<rparr>, False, 0, u)"
proof -
  define st0 where "st0 = \<lparr>mTiles = ClearCmbFlags (Tiles g), moved = False,
                            pointsGained = 0, movedThisTurn = False, nextUUID = u\<rparr>"
  have m: "mTiles st0 = ClearCmbFlags (Tiles g)" by (simp add: st0_def)
  have f: "st0\<lparr>movedThisTurn := False\<rparr> = st0" by (simp add: st0_def)
  have rb: "rowBody dir st0 row = st0" if "row \<in> {0,1,2,3}" for row
    using that by (rule blocked_rowBody[OF assms _ m])
  have "movePass dir st0 = st0"
    unfolding movePass_def rowRange_eq f by (simp add: rb)
  then have "moveLoop dir st0 = st0"
    by (subst moveLoop.simps) (simp add: Let_def st0_def)
  then show ?thesis by (simp add: move_def st0_def[symmetric]) (simp add: st0_def)
qed

text \<open>
  Claim C2, as amended.  When no tile can slide or merge in the direction asked for,
  \<^verbatim>\<open>Move\<close> returns zero points, sets \<open>LastMove\<close> to that direction, spawns no tile
  (it draws nothing from the random source and creates no identity) and leaves the
  value and the identity of every tile as they were.  It does write the tiles: the
  combined flag of every tile is cleared.
\<close>

theorem C2_blocked_move:
  assumes "blocked g dir"
  shows "Move g dir r u = Some (g\<lparr>Tiles := ClearCmbFlags (Tiles g), LastMove := dir\<rparr>, 0, r, u)"
  by (simp add: Move_def blocked_move[OF assms])

subsection \<open>The counterexample and a run\<close>

text \<open>
  The board after one move to the left from a first row 2, 2, 0, 0, with the new tile
  spawned at row 1, column 0: the 4 in the corner is flagged as combined.  A second move
  to the left is blocked, and clears that flag.
\<close>

definition boardC2 :: Grid where
  "boardC2 = fst (the (Move
      (gridOf (Arr4 (Arr4 2 2 0 0) (Arr4 0 0 0 0) (Arr4 0 0 0 0) (Arr4 0 0 0 0)))
      DirLeft \<lparr>ints = [1, 0], floats = [0]\<rparr> 16))"

theorem C2_counterexample:
  "blocked boardC2 DirLeft \<and> Cmb (at2 (Tiles boardC2) 0 0) \<and>
   Move boardC2 DirLeft \<lparr>ints = [], floats = []\<rparr> 19 \<noteq> None \<and>
   \<not> Cmb (at2 (Tiles (fst (the (Move boardC2 DirLeft \<lparr>ints = [], floats = []\<rparr> 19)))) 0 0) \<and>
   Tiles (fst (the (Move boardC2 DirLeft \<lparr>ints = [], floats = []\<rparr> 19))) \<noteq> Tiles boardC2"
  by code_simp

theorem C2_blocked_move_witness:
  "blocked boardC2 DirLeft \<and>
   Move boardC2 DirLeft tapeC3 19 =
     Some (boardC2\<lparr>Tiles := ClearCmbFlags (Tiles boardC2), LastMove := DirLeft\<rparr>, 0, tapeC3, 19)"
proof -
  have b: "blocked boardC2 DirLeft" by code_simp
  from C2_blocked_move[OF b] b show ?thesis by simp
qed

subsection \<open>The flag \<open>moved\<close> and blocked directions\<close>

lemma moveStep_moves:
  assumes "i \<in> {0,1,2,3}" "moveStepAt (dir = DirRight \<or> dir = DirDown) i g u \<noteq> None"
  shows "fst (snd (moveStep g dir u))"
proof (cases rule: moveStep_cases[of g dir u])
  case none
  with assms show ?thesis by auto
next
  case (some j)
  obtain g' m p u' where r: "moveStep g dir u = (g', m, p, u')" by (metis prod_cases4)
  with some moveStepAt_pot[of "dir = DirRight \<or> dir = DirDown" j g u g' m p u']
  show ?thesis by simp
qed

lemma canMove_moveStep:
  assumes c: "canMove (Tiles g) dir a b" and a: "a \<in> {0,1,2,3}" and b: "b \<in> {0,1,2,3}"
  shows "\<exists>row\<in>{0,1,2,3}. fst (snd (moveStep (at4 (orient dir (ClearCmbFlags (Tiles g))) row) dir u))"
proof -
  define row where "row = (if dir = DirUp \<or> dir = DirDown then b else a)"
  define i where "i = (if dir = DirUp \<or> dir = DirDown then a else b)"
  define n where "n = (if dir = DirRight \<or> dir = DirDown then i + 1 else i - 1)"
  define R where "R = at4 (orient dir (ClearCmbFlags (Tiles g))) row"
  have row: "row \<in> {0,1,2,3}" and i: "i \<in> {0,1,2,3}" using a b by (auto simp: row_def i_def)
  have ab: "cellOf dir row i = (a, b)" by (simp add: cellOf_def row_def i_def)
  obtain c' d' where cd: "cellOf dir row n = (c', d')" by (cases "cellOf dir row n")
  have nb: "neighbour dir (a, b) = (c', d')"
    using dir_distinct ab cd by (auto simp: neighbour_def cellOf_def n_def split: if_splits)
  from c have og: "onGrid (c', d')" and v: "Val (at2 (Tiles g) a b) \<noteq> 0"
    and w: "Val (at2 (Tiles g) c' d') = 0 \<or> Val (at2 (Tiles g) c' d') = Val (at2 (Tiles g) a b)"
    by (simp_all add: canMove_def nb Let_def emptyTile_def)
  from og cd have nr: "n \<in> {0,1,2,3}"
    by (auto simp: onGrid_def cellOf_def split: if_splits)
  have src: "at4 R i = clearTile (at2 (Tiles g) a b)"
    unfolding R_def at4_orient[OF row i] ab by (simp add: at2_ClearCmbFlags)
  have dst: "at4 R n = clearTile (at2 (Tiles g) c' d')"
    unfolding R_def at4_orient[OF row nr] cd by (simp add: at2_ClearCmbFlags)
  have "moveStepAt (dir = DirRight \<or> dir = DirDown) i R u \<noteq> None"
    using v w nr
    by (auto simp add: moveStepAt_def n_def[symmetric] Let_def src dst clearTile_def emptyTile_def)
  from moveStep_moves[OF i this] row show ?thesis unfolding R_def by blast
qed

lemma rowBody_moved_mono: "moved s \<Longrightarrow> moved (rowBody dir s row)"
  by (simp add: rowBody_eq Let_def)

lemma foldl_rowBody_moved:
  assumes "moved s \<or> s = s0" "set rows \<subseteq> {0,1,2,3}"
    "r0 \<in> set rows \<longrightarrow> fst (snd (moveStep (at4 (orient dir (mTiles s0)) r0) dir (nextUUID s0)))"
  shows "(r0 \<in> set rows \<longrightarrow> moved (foldl (rowBody dir) s rows)) \<and>
         (moved (foldl (rowBody dir) s rows) \<or> foldl (rowBody dir) s rows = s0)"
  using assms
proof (induction rows arbitrary: s)
  case Nil
  then show ?case by simp
next
  case (Cons row rows)
  have row: "row \<in> {0,1,2,3}" and rows: "set rows \<subseteq> {0,1,2,3}" using Cons.prems(2) by auto
  show ?case
  proof (cases "moved s")
    case True
    then have m: "moved (rowBody dir s row)" by (rule rowBody_moved_mono)
    have "moved (foldl (rowBody dir) (rowBody dir s row) rows)"
      by (rule foldl_rowBody_inv[where P = moved]) (use m rows rowBody_moved_mono in auto)
    then show ?thesis by simp
  next
    case False
    with Cons.prems(1) have s: "s = s0" by simp
    from row show ?thesis
    proof (cases rule: rowBody_cases[where dir = dir and st = s])
      case still
      have "r0 \<noteq> row \<or> r0 \<notin> set (row # rows)" using still(2) Cons.prems(3) s by auto
      then have "r0 \<in> set (row # rows) \<longrightarrow> r0 \<in> set rows" by auto
      moreover have "r0 \<in> set rows \<longrightarrow>
          fst (snd (moveStep (at4 (orient dir (mTiles s0)) r0) dir (nextUUID s0)))"
        using Cons.prems(3) by simp
      ultimately show ?thesis
        using Cons.IH[of "rowBody dir s row"] still(1) s rows by auto
    next
      case go
      have "moved (foldl (rowBody dir) (rowBody dir s row) rows)"
        by (rule foldl_rowBody_inv[where P = moved]) (use go rows rowBody_moved_mono in auto)
      then show ?thesis by simp
    qed
  qed
qed

lemma moveLoop_moved_mono: "moved st \<Longrightarrow> moved (moveLoop dir st)"
  by (rule moveLoop_inv[where P = moved]) (auto simp: rowBody_moved_mono)

text \<open>The flag \<open>moved\<close> of \<^verbatim>\<open>move\<close> says exactly that the direction is not blocked.\<close>

lemma move_moved_iff: "fst (snd (move g dir u)) \<longleftrightarrow> \<not> blocked g dir"
proof
  assume "fst (snd (move g dir u))"
  then show "\<not> blocked g dir" using blocked_move[of g dir u] by auto
next
  assume "\<not> blocked g dir"
  then obtain a b where ab: "a \<in> {0,1,2,3}" "b \<in> {0,1,2,3}" "canMove (Tiles g) dir a b"
    by (auto simp: blocked_def)
  define st0 where "st0 = \<lparr>mTiles = ClearCmbFlags (Tiles g), moved = False,
                            pointsGained = 0, movedThisTurn = False, nextUUID = u\<rparr>"
  from canMove_moveStep[OF ab(3,1,2), of u] obtain r0 where r0: "r0 \<in> {0,1,2,3}"
    "fst (snd (moveStep (at4 (orient dir (mTiles st0)) r0) dir (nextUUID st0)))"
    by (auto simp: st0_def)
  have f: "st0\<lparr>movedThisTurn := False\<rparr> = st0" by (simp add: st0_def)
  have "moved (movePass dir st0)"
    unfolding movePass_def f rowRange_eq
    using foldl_rowBody_moved[of st0 st0 "[0,1,2,3]" r0 dir] r0 by auto
  then have "moved (moveLoop dir st0)"
    by (subst moveLoop.simps) (auto simp: Let_def intro: moveLoop_moved_mono)
  then show "fst (snd (move g dir u))" by (simp add: move_def Let_def st0_def)
qed

section \<open>The outcome of a board\<close>

text \<open>
  The words of the claim, said of the values on the board: every cell holds a tile; no
  two cells next to each other in a row or in a column hold equal values; some tile
  has a value of at least \<open>n\<close>.
\<close>

definition fullBoard :: "Grid \<Rightarrow> bool" where
  "fullBoard g =
     list_all (\<lambda>i. list_all (\<lambda>j. Val (at2 (Tiles g) i j) \<noteq> emptyTile) [0, 1, 2, 3]) [0, 1, 2, 3]"

definition noEqualNeighbours :: "Grid \<Rightarrow> bool" where
  "noEqualNeighbours g =
     (list_all (\<lambda>i. list_all (\<lambda>j. Val (at2 (Tiles g) i j) \<noteq> Val (at2 (Tiles g) i (j + 1)))
                        [0, 1, 2]) [0, 1, 2, 3] \<and>
      list_all (\<lambda>i. list_all (\<lambda>j. Val (at2 (Tiles g) i j) \<noteq> Val (at2 (Tiles g) (i + 1) j))
                        [0, 1, 2, 3]) [0, 1, 2])"

definition hasTileAtLeast :: "Grid \<Rightarrow> int \<Rightarrow> bool" where
  "hasTileAtLeast g n =
     list_ex (\<lambda>i. list_ex (\<lambda>j. Val (at2 (Tiles g) i j) \<ge> n) [0, 1, 2, 3]) [0, 1, 2, 3]"

lemma upt_int3: "map int [0..<nat (gridWidth - 1)] = [0, 1, 2]"
  by (simp add: gridWidth_def GridSize_def upt_rec numeral_eq_Suc)

lemma upt_int4: "map int [0..<nat gridWidth] = [0, 1, 2, 3]" "map int [0..<nat gridHeight] = [0, 1, 2, 3]"
  by (simp_all add: gridWidth_def gridHeight_def GridSize_def upt_rec numeral_eq_Suc)

lemma isLoss_iff: "isLoss g \<longleftrightarrow> fullBoard g \<and> noEqualNeighbours g"
  unfolding isLoss_def adjacentEqual_def upt_int3 upt_int4 fullBoard_def noEqualNeighbours_def Let_def
  by (simp add: at2_transpose)

lemma foldl_highest:
  "n \<le> foldl (\<lambda>highest c. if Val c > highest then Val c else highest) h cs \<longleftrightarrow>
   n \<le> h \<or> (\<exists>c\<in>set cs. n \<le> Val c)"
  by (induction cs arbitrary: h) auto

lemma HighestTile_ge:
  assumes "0 < n"
  shows "n \<le> HighestTile g \<longleftrightarrow> hasTileAtLeast g n"
proof -
  obtain r0 r1 r2 r3 where t: "Tiles g = Arr4 r0 r1 r2 r3" by (cases "Tiles g")
  obtain a0 a1 a2 a3 where r0: "r0 = Arr4 a0 a1 a2 a3" by (cases r0)
  obtain b0 b1 b2 b3 where r1: "r1 = Arr4 b0 b1 b2 b3" by (cases r1)
  obtain c0 c1 c2 c3 where r2: "r2 = Arr4 c0 c1 c2 c3" by (cases r2)
  obtain d0 d1 d2 d3 where r3: "r3 = Arr4 d0 d1 d2 d3" by (cases r3)
  have "n \<le> HighestTile g \<longleftrightarrow> (\<exists>c\<in>set (cells (Tiles g)). n \<le> Val c)"
    using assms unfolding HighestTile_def foldl_highest by simp
  also have "\<dots> \<longleftrightarrow> hasTileAtLeast g n"
    unfolding hasTileAtLeast_def t r0 r1 r2 r3 cells_def at2_def by simp
  finally show ?thesis .
qed

lemma at2_gridOf_vals:
  assumes "i \<in> {0,1,2,3}" "j \<in> {0,1,2,3}"
  shows "Val (at2 (Tiles (gridOf (vals g))) i j) = Val (at2 (Tiles g) i j)"
proof -
  obtain r0 r1 r2 r3 where t: "Tiles g = Arr4 r0 r1 r2 r3" by (cases "Tiles g")
  obtain a0 a1 a2 a3 where r0: "r0 = Arr4 a0 a1 a2 a3" by (cases r0)
  obtain b0 b1 b2 b3 where r1: "r1 = Arr4 b0 b1 b2 b3" by (cases r1)
  obtain c0 c1 c2 c3 where r2: "r2 = Arr4 c0 c1 c2 c3" by (cases r2)
  obtain d0 d1 d2 d3 where r3: "r3 = Arr4 d0 d1 d2 d3" by (cases r3)
  from assms show ?thesis
    by (auto simp add: t r0 r1 r2 r3 vals_def gridOf_def rowOf_def tileOf_def at2_def)
qed

lemma outcome_of_values:
  "fullBoard (gridOf (vals g)) = fullBoard g"
  "noEqualNeighbours (gridOf (vals g)) = noEqualNeighbours g"
  "hasTileAtLeast (gridOf (vals g)) n = hasTileAtLeast g n"
  by (simp_all add: fullBoard_def noEqualNeighbours_def hasTileAtLeast_def at2_gridOf_vals)

text \<open>
  Claim C1, as amended.  \<^verbatim>\<open>Outcome\<close> is a function of the values on the board: it is
  Lose on every full board on which no two neighbours in a row or a column are equal,
  also when the board holds a tile of 2048 or more; on every other board it is Win when
  some tile is at least 2048, and None otherwise.  It is the same on the board rebuilt
  from the values alone, with other flags and identities.
\<close>

theorem C1_outcome:
  "Outcome g = (if fullBoard g \<and> noEqualNeighbours g then Lose
                else if hasTileAtLeast g 2048 then Win else OutcomeNone) \<and>
   Outcome (gridOf (vals g)) = Outcome g"
proof -
  have e: "Outcome h = (if fullBoard h \<and> noEqualNeighbours h then Lose
                else if hasTileAtLeast h 2048 then Win else OutcomeNone)" for h
    by (simp add: Outcome_def isLoss_iff HighestTile_ge)
  show ?thesis using e[of g] e[of "gridOf (vals g)"] by (simp add: outcome_of_values)
qed

text \<open>
  The claim as stated fails on a full board of alternating values that holds a 2048:
  \<^verbatim>\<open>Outcome\<close> tests \<^verbatim>\<open>isLoss\<close> first.
\<close>

definition boardC1 :: Grid where
  "boardC1 = gridOf (Arr4 (Arr4 2048 2 4 2) (Arr4 2 4 2 4) (Arr4 4 2 4 2) (Arr4 2 4 2 4))"

theorem C1_counterexample:
  "hasTileAtLeast boardC1 2048 \<and> Outcome boardC1 = Lose \<and> Outcome boardC1 \<noteq> Win"
  by code_simp

section \<open>The merges of a move\<close>

text \<open>
  A merge is a step of \<^verbatim>\<open>moveStep\<close> that makes one tile of two.  It is read off what
  the step does: \<open>mergeAt\<close> looks at an iteration of the loop that returns, and when
  the destination \<open>g[newPos]\<close> held a tile before, it records the source \<open>g[i]\<close> and
  the destination as the row had them, and as the product the tile that the returned row
  holds at the destination.  \<open>stepMerge\<close> follows the loop of \<^verbatim>\<open>moveStep\<close> to the
  iteration that returns.

  \<open>moveCalls\<close> lists the calls of \<^verbatim>\<open>moveStep\<close> that \<^verbatim>\<open>move\<close> makes, in order, each as the
  row it is given and the state of the identity generator; \<open>mergesOf\<close> lists the merges
  of these calls.
\<close>

record mergeEvent =
  src :: Tile
  dst :: Tile
  product :: Tile

definition mergeAt :: "bool \<Rightarrow> int \<Rightarrow> row \<Rightarrow> uuid \<Rightarrow> mergeEvent option" where
  "mergeAt reverse i g u =
     (case moveStepAt reverse i g u of
        None \<Rightarrow> None
      | Some (g', rowMoved, points, u') \<Rightarrow>
          let newPos = (if reverse then i + 1 else i - 1) in
          if Val (at4 g newPos) \<noteq> emptyTile then
            Some \<lparr>src = at4 g i, dst = at4 g newPos, product = at4 g' newPos\<rparr>
          else None)"

fun stepMerge :: "bool \<Rightarrow> int list \<Rightarrow> row \<Rightarrow> uuid \<Rightarrow> mergeEvent option" where
  "stepMerge reverse [] g u = None"
| "stepMerge reverse (i # rest) g u =
     (case moveStepAt reverse i g u of
        Some r \<Rightarrow> mergeAt reverse i g u
      | None \<Rightarrow> stepMerge reverse rest g u)"

definition callMerge :: "Direction \<Rightarrow> row \<times> uuid \<Rightarrow> mergeEvent option" where
  "callMerge dir c =
     stepMerge (dir = DirRight \<or> dir = DirDown) (newIter 4 (dir = DirRight \<or> dir = DirDown))
       (fst c) (snd c)"

fun passCalls :: "Direction \<Rightarrow> moveState \<Rightarrow> int list \<Rightarrow> (row \<times> uuid) list" where
  "passCalls dir st [] = []"
| "passCalls dir st (row # rows) =
     (at4 (orient dir (mTiles st)) row, nextUUID st) # passCalls dir (rowBody dir st row) rows"

function moveCalls :: "Direction \<Rightarrow> moveState \<Rightarrow> (row \<times> uuid) list" where
  "moveCalls dir st =
     passCalls dir (st\<lparr>movedThisTurn := False\<rparr>) rowRange @
     (if movedThisTurn (movePass dir st) then moveCalls dir (movePass dir st) else [])"
  by pat_completeness auto
termination
  by (relation "measure (\<lambda>(dir, st). potential dir (mTiles st))") (auto simp: movePass_pot)

declare moveCalls.simps [simp del]

definition mergesOf :: "Grid \<Rightarrow> Direction \<Rightarrow> uuid \<Rightarrow> mergeEvent list" where
  "mergesOf g dir u =
     List.map_filter (callMerge dir)
       (moveCalls dir \<lparr>mTiles = ClearCmbFlags (Tiles g), moved = False, pointsGained = 0,
                        movedThisTurn = False, nextUUID = u\<rparr>)"

definition boardC9 :: Grid where
  "boardC9 = gridOf (Arr4 (Arr4 2 2 2 2) (Arr4 0 0 0 0) (Arr4 0 0 0 0) (Arr4 0 0 0 0))"

text \<open>What a call of \<^verbatim>\<open>moveStep\<close> does, with the merge it performs.\<close>

lemma stepMerge_cases:
  assumes "set is \<subseteq> {0,1,2,3}"
  obtains (none) "moveStepLoop reverse is g u = (g, False, 0, u)" "stepMerge reverse is g u = None"
  | (merge) i n where "i \<in> {0,1,2,3}" "n \<in> {0,1,2,3}" "n \<noteq> i"
      "Val (at4 g i) \<noteq> 0" "Val (at4 g n) = Val (at4 g i)" "\<not> Cmb (at4 g i)" "\<not> Cmb (at4 g n)"
      "stepMerge reverse is g u =
         Some \<lparr>src = at4 g i, dst = at4 g n,
               product = \<lparr>Val = addInt (Val (at4 g n)) (Val (at4 g i)), Cmb = True, UUID = u\<rparr>\<rparr>"
      "moveStepLoop reverse is g u =
         (upd4 (upd4 g n \<lparr>Val = addInt (Val (at4 g n)) (Val (at4 g i)), Cmb = True, UUID = u\<rparr>) i
            ((at4 g i)\<lparr>Val := 0, UUID := u + 1\<rparr>), True, addInt (Val (at4 g n)) (Val (at4 g i)), u + 2)"
  | (slide) i n where "i \<in> {0,1,2,3}" "n \<in> {0,1,2,3}" "n \<noteq> i"
      "Val (at4 g i) \<noteq> 0" "Val (at4 g n) = 0"
      "stepMerge reverse is g u = None"
      "moveStepLoop reverse is g u =
         (upd4 (upd4 g n (at4 g i)) i \<lparr>Val = 0, Cmb = False, UUID = u\<rparr>, True, 0, u + 1)"
  using assms
proof (induction "is" arbitrary: thesis)
  case Nil
  then show ?case by simp
next
  case (Cons i rest)
  have i: "i \<in> {0,1,2,3}" and rest: "set rest \<subseteq> {0,1,2,3}" using Cons.prems(4) by auto
  show ?case
  proof (cases "moveStepAt reverse i g u")
    case None
    show ?thesis
    proof (rule Cons.IH[OF _ _ _ rest])
      assume "moveStepLoop reverse rest g u = (g, False, 0, u)" "stepMerge reverse rest g u = None"
      with None show ?thesis by (intro Cons.prems(1)) auto
    next
      fix j n assume "j \<in> {0,1,2,3}" "n \<in> {0,1,2,3}" "n \<noteq> j"
      "Val (at4 g j) \<noteq> 0" "Val (at4 g n) = Val (at4 g j)" "\<not> Cmb (at4 g j)" "\<not> Cmb (at4 g n)"
      "stepMerge reverse rest g u =
         Some \<lparr>src = at4 g j, dst = at4 g n,
               product = \<lparr>Val = addInt (Val (at4 g n)) (Val (at4 g j)), Cmb = True, UUID = u\<rparr>\<rparr>"
      "moveStepLoop reverse rest g u =
         (upd4 (upd4 g n \<lparr>Val = addInt (Val (at4 g n)) (Val (at4 g j)), Cmb = True, UUID = u\<rparr>) j
            ((at4 g j)\<lparr>Val := 0, UUID := u + 1\<rparr>), True, addInt (Val (at4 g n)) (Val (at4 g j)), u + 2)"
      with None show ?thesis by (intro Cons.prems(2)[of j n]) auto
    next
      fix j n assume "j \<in> {0,1,2,3}" "n \<in> {0,1,2,3}" "n \<noteq> j"
      "Val (at4 g j) \<noteq> 0" "Val (at4 g n) = 0"
      "stepMerge reverse rest g u = None"
      "moveStepLoop reverse rest g u =
         (upd4 (upd4 g n (at4 g j)) j \<lparr>Val = 0, Cmb = False, UUID = u\<rparr>, True, 0, u + 1)"
      with None show ?thesis by (intro Cons.prems(3)[of j n]) auto
    qed
  next
    case (Some res)
    from Some i show ?thesis
    proof (cases rule: moveStepAt_cases)
      case (merge n)
      then have ni: "n \<noteq> i" using i by (auto split: if_splits)
      have "mergeAt reverse i g u = Some \<lparr>src = at4 g i, dst = at4 g n,
               product = \<lparr>Val = addInt (Val (at4 g n)) (Val (at4 g i)), Cmb = True, UUID = u\<rparr>\<rparr>"
        using merge Some ni i by (simp add: mergeAt_def Let_def emptyTile_def at4_upd4_same at4_upd4_other)
      with merge Some ni i show ?thesis by (intro Cons.prems(2)[of i n]) auto
    next
      case (slide n)
      then have ni: "n \<noteq> i" using i by (auto split: if_splits)
      have "mergeAt reverse i g u = None"
        using slide Some by (simp add: mergeAt_def Let_def emptyTile_def)
      with slide Some ni i show ?thesis by (intro Cons.prems(3)[of i n]) auto
    qed
  qed
qed

lemma mset_cells_transpose [simp]: "mset (cells (transpose_tiles t)) = mset (cells t)"
proof -
  obtain r0 r1 r2 r3 where t: "t = Arr4 r0 r1 r2 r3" by (cases t)
  obtain a0 a1 a2 a3 where r0: "r0 = Arr4 a0 a1 a2 a3" by (cases r0)
  obtain b0 b1 b2 b3 where r1: "r1 = Arr4 b0 b1 b2 b3" by (cases r1)
  obtain c0 c1 c2 c3 where r2: "r2 = Arr4 c0 c1 c2 c3" by (cases r2)
  obtain d0 d1 d2 d3 where r3: "r3 = Arr4 d0 d1 d2 d3" by (cases r3)
  show ?thesis by (simp add: t r0 r1 r2 r3 cells_def)
qed

lemma mset_cells_orient [simp]: "mset (cells (orient dir t)) = mset (cells t)"
  by (simp add: orient_def)

lemma mset_cells_upd4:
  "row \<in> {0,1,2,3} \<Longrightarrow>
   mset (cells (upd4 t row r)) + mset (list4 (at4 t row)) = mset (cells t) + mset (list4 r)"
  by (cases t) (auto simp: cells_def)

lemma mset_list4_upd4:
  "n \<in> {0,1,2,3} \<Longrightarrow> mset (list4 (upd4 r n x)) + {#at4 r n#} = mset (list4 r) + {#x#}"
  by (cases r) auto

lemma at4_in_cells: "row \<in> {0,1,2,3} \<Longrightarrow> i \<in> {0,1,2,3} \<Longrightarrow> at4 (at4 t row) i \<in># mset (cells t)"
proof -
  assume a: "row \<in> {0,1,2,3}" "i \<in> {0,1,2,3}"
  obtain r0 r1 r2 r3 where t: "t = Arr4 r0 r1 r2 r3" by (cases t)
  obtain a0 a1 a2 a3 where r0: "r0 = Arr4 a0 a1 a2 a3" by (cases r0)
  obtain b0 b1 b2 b3 where r1: "r1 = Arr4 b0 b1 b2 b3" by (cases r1)
  obtain c0 c1 c2 c3 where r2: "r2 = Arr4 c0 c1 c2 c3" by (cases r2)
  obtain d0 d1 d2 d3 where r3: "r3 = Arr4 d0 d1 d2 d3" by (cases r3)
  from a show ?thesis by (auto simp add: t r0 r1 r2 r3 cells_def)
qed

lemma mset_chain:
  fixes A B C D X Y :: "'a multiset"
  assumes "A + B = C + D" "D + X = B + Y"
  shows "A + X = C + Y"
proof -
  have "A + X + B = C + (D + X)" using assms(1) by (simp add: ac_simps)
  also have "\<dots> = C + Y + B" using assms(2) by (simp add: ac_simps)
  finally show ?thesis by simp
qed

lemma mset_list4_upd4_twice:
  assumes "n \<in> {0,1,2,3}" "i \<in> {0,1,2,3}" "n \<noteq> i"
  shows "mset (list4 (upd4 (upd4 r n x) i y)) + ({#at4 r i#} + {#at4 r n#}) =
         mset (list4 r) + ({#x#} + {#y#})"
proof -
  have a: "mset (list4 (upd4 (upd4 r n x) i y)) + {#at4 r i#} = mset (list4 (upd4 r n x)) + {#y#}"
    using mset_list4_upd4[OF assms(2), of "upd4 r n x" y] assms by (simp add: at4_upd4_other)
  have b: "mset (list4 (upd4 r n x)) + {#at4 r n#} = mset (list4 r) + {#x#}"
    by (rule mset_list4_upd4[OF assms(1)])
  have "mset (list4 (upd4 (upd4 r n x) i y)) + ({#at4 r i#} + {#at4 r n#}) =
        (mset (list4 (upd4 (upd4 r n x) i y)) + {#at4 r i#}) + {#at4 r n#}"
    by (simp only: add.assoc)
  also have "\<dots> = (mset (list4 (upd4 r n x)) + {#at4 r n#}) + {#y#}"
    unfolding a by (simp only: ac_simps)
  also have "\<dots> = mset (list4 r) + ({#x#} + {#y#})"
    unfolding b by (simp only: ac_simps)
  finally show ?thesis .
qed

text \<open>
  What one execution of the row body does to the loop state, with the merge it performs:
  nothing, a merge, or a slide.  The tiles of the board are given as a multiset.
\<close>

lemma rowBody_step_cases:
  assumes "row \<in> {0,1,2,3}"
  obtains (none) "rowBody dir st row = st"
      "callMerge dir (at4 (orient dir (mTiles st)) row, nextUUID st) = None"
  | (merge) s d where "s \<in># mset (cells (mTiles st))" "d \<in># mset (cells (mTiles st))"
      "Val s \<noteq> 0" "Val d = Val s" "\<not> Cmb s" "\<not> Cmb d"
      "callMerge dir (at4 (orient dir (mTiles st)) row, nextUUID st) =
         Some \<lparr>src = s, dst = d,
               product = \<lparr>Val = addInt (Val d) (Val s), Cmb = True, UUID = nextUUID st\<rparr>\<rparr>"
      "mset (cells (mTiles (rowBody dir st row))) + {#s, d#} =
         mset (cells (mTiles st)) +
         {#\<lparr>Val = addInt (Val d) (Val s), Cmb = True, UUID = nextUUID st\<rparr>,
           s\<lparr>Val := 0, UUID := nextUUID st + 1\<rparr>#}"
      "pointsGained (rowBody dir st row) =
         (if addInt (Val d) (Val s) > 0 then addInt (Val d) (Val s) else pointsGained st)"
      "nextUUID (rowBody dir st row) = nextUUID st + 2"
      "moved (rowBody dir st row)" "movedThisTurn (rowBody dir st row)"
  | (slide) s d where "s \<in># mset (cells (mTiles st))" "d \<in># mset (cells (mTiles st))"
      "Val s \<noteq> 0" "Val d = 0"
      "callMerge dir (at4 (orient dir (mTiles st)) row, nextUUID st) = None"
      "mset (cells (mTiles (rowBody dir st row))) + {#d#} =
         mset (cells (mTiles st)) + {#\<lparr>Val = 0, Cmb = False, UUID = nextUUID st\<rparr>#}"
      "pointsGained (rowBody dir st row) = pointsGained st"
      "nextUUID (rowBody dir st row) = nextUUID st + 1"
      "moved (rowBody dir st row)" "movedThisTurn (rowBody dir st row)"
proof -
  define T where "T = orient dir (mTiles st)"
  define R where "R = at4 T row"
  define u where "u = nextUUID st"
  define rv where "rv = (dir = DirRight \<or> dir = DirDown)"
  have ms: "moveStep R dir u = moveStepLoop rv (newIter 4 rv) R u"
    by (simp add: moveStep_eq rv_def)
  have cm: "callMerge dir (R, u) = stepMerge rv (newIter 4 rv) R u"
    by (simp add: callMerge_def rv_def)
  have rb: "rowBody dir st row =
     (let res = moveStep R dir u in
      \<lparr>mTiles = orient dir (upd4 T row (fst res)),
       moved = (fst (snd res) \<or> moved st),
       pointsGained = (if fst (snd (snd res)) > 0 then fst (snd (snd res)) else pointsGained st),
       movedThisTurn = (fst (snd res) \<or> movedThisTurn st),
       nextUUID = snd (snd (snd res))\<rparr>)"
    by (simp add: rowBody_eq T_def R_def u_def)
  have inC: "at4 R i \<in># mset (cells (mTiles st))" if "i \<in> {0,1,2,3}" for i
    using at4_in_cells[OF assms that, of T] by (simp add: R_def T_def)
  have grid: "mset (cells (orient dir (upd4 T row R'))) + mset (list4 R) =
              mset (cells (mTiles st)) + mset (list4 R')" for R'
    using mset_cells_upd4[OF assms, of T R'] by (simp add: R_def T_def)
  have "set (newIter 4 rv) \<subseteq> {0,1,2,3}" by (auto simp: newIter4)
  then show thesis
  proof (cases rule: stepMerge_cases[where reverse = rv and g = R and u = u])
    case none
    then have "rowBody dir st row = st"
      unfolding rb ms by (simp add: R_def upd4_at4_same) (simp add: T_def u_def)
    with none show ?thesis by (intro that(1)) (simp_all add: cm R_def[symmetric] T_def[symmetric] u_def[symmetric])
  next
    case (merge i n)
    define P where "P = \<lparr>Val = addInt (Val (at4 R n)) (Val (at4 R i)), Cmb = True, UUID = u\<rparr>"
    define E where "E = (at4 R i)\<lparr>Val := 0, UUID := u + 1\<rparr>"
    define R' where "R' = upd4 (upd4 R n P) i E"
    have row: "mset (list4 R') + ({#at4 R i#} + {#at4 R n#}) = mset (list4 R) + ({#P#} + {#E#})"
      unfolding R'_def by (rule mset_list4_upd4_twice) (use merge in simp_all)
    have "mset (cells (orient dir (upd4 T row R'))) + ({#at4 R i#} + {#at4 R n#}) =
          mset (cells (mTiles st)) + ({#P#} + {#E#})"
      by (rule mset_chain[OF grid row])
    then have g: "mset (cells (orient dir (upd4 T row R'))) + {#at4 R i, at4 R n#} =
          mset (cells (mTiles st)) + {#P, E#}"
      by (simp add: add_mset_commute)
    have res: "moveStep R dir u = (R', True, addInt (Val (at4 R n)) (Val (at4 R i)), u + 2)"
      unfolding ms merge R'_def P_def E_def by simp
    show ?thesis
    proof (rule that(2)[of "at4 R i" "at4 R n"])
      show "mset (cells (mTiles (rowBody dir st row))) + {#at4 R i, at4 R n#} =
         mset (cells (mTiles st)) +
         {#\<lparr>Val = addInt (Val (at4 R n)) (Val (at4 R i)), Cmb = True, UUID = nextUUID st\<rparr>,
           (at4 R i)\<lparr>Val := 0, UUID := nextUUID st + 1\<rparr>#}"
        using g unfolding rb res by (simp add: P_def E_def u_def)
    qed (use merge inC in \<open>simp_all add: cm[unfolded R_def T_def u_def] rb res\<close>, simp_all add: R_def T_def u_def)
  next
    case (slide i n)
    define E where "E = \<lparr>Val = 0, Cmb = False, UUID = u\<rparr>"
    define R' where "R' = upd4 (upd4 R n (at4 R i)) i E"
    have "mset (list4 R') + ({#at4 R i#} + {#at4 R n#}) = mset (list4 R) + ({#at4 R i#} + {#E#})"
      unfolding R'_def by (rule mset_list4_upd4_twice) (use slide in simp_all)
    then have row: "mset (list4 R') + {#at4 R n#} = mset (list4 R) + {#E#}"
      by simp
    have g: "mset (cells (orient dir (upd4 T row R'))) + {#at4 R n#} =
          mset (cells (mTiles st)) + {#E#}"
      by (rule mset_chain[OF grid row])
    have res: "moveStep R dir u = (R', True, 0, u + 1)"
      unfolding ms slide R'_def E_def by simp
    show ?thesis
    proof (rule that(3)[of "at4 R i" "at4 R n"])
      show "mset (cells (mTiles (rowBody dir st row))) + {#at4 R n#} =
         mset (cells (mTiles st)) + {#\<lparr>Val = 0, Cmb = False, UUID = nextUUID st\<rparr>#}"
        using g unfolding rb res by (simp add: E_def u_def)
    qed (use slide inC in \<open>simp_all add: cm[unfolded R_def T_def u_def] rb res\<close>, simp_all add: R_def T_def u_def)
  qed
qed

text \<open>
  An invariant that follows the merges: \<open>f\<close> updates an accumulator with what each call
  of \<^verbatim>\<open>moveStep\<close> merged, if anything.
\<close>

lemma passCalls_inv:
  assumes "I a st"
    and "\<And>a s row. row \<in> {0,1,2,3} \<Longrightarrow> I a s \<Longrightarrow>
           I (f a (callMerge dir (at4 (orient dir (mTiles s)) row, nextUUID s))) (rowBody dir s row)"
    and "set rows \<subseteq> {0,1,2,3}"
  shows "I (foldl f a (map (callMerge dir) (passCalls dir st rows))) (foldl (rowBody dir) st rows)"
  using assms(1,3)
proof (induction rows arbitrary: a st)
  case Nil
  then show ?case by simp
next
  case (Cons row rows)
  from Cons.prems have "I (f a (callMerge dir (at4 (orient dir (mTiles st)) row, nextUUID st)))
     (rowBody dir st row)" by (intro assms(2)) auto
  from Cons.IH[OF this] Cons.prems(2) show ?case by simp
qed

lemma moveCalls_inv:
  assumes "I a st"
    and "\<And>a s row. row \<in> {0,1,2,3} \<Longrightarrow> I a s \<Longrightarrow>
           I (f a (callMerge dir (at4 (orient dir (mTiles s)) row, nextUUID s))) (rowBody dir s row)"
    and "\<And>a s. I a s \<Longrightarrow> I a (s\<lparr>movedThisTurn := False\<rparr>)"
  shows "I (foldl f a (map (callMerge dir) (moveCalls dir st))) (moveLoop dir st)"
  using assms
proof (induction dir st arbitrary: a rule: moveLoop.induct)
  case (1 dir st)
  define a' where "a' = foldl f a (map (callMerge dir) (passCalls dir (st\<lparr>movedThisTurn := False\<rparr>) rowRange))"
  have "I a (st\<lparr>movedThisTurn := False\<rparr>)" using "1.prems"(1,3) by simp
  then have p: "I a' (movePass dir st)"
    unfolding movePass_def a'_def
    by (rule passCalls_inv) (simp_all add: "1.prems"(2) rowRange_eq)
  show ?case
  proof (cases "movedThisTurn (movePass dir st)")
    case True
    have "I (foldl f a' (map (callMerge dir) (moveCalls dir (movePass dir st))))
            (moveLoop dir (movePass dir st))"
      by (rule "1.IH"[OF refl _ p]) (use True "1.prems" in simp_all)
    with True show ?thesis
      by (subst moveLoop.simps, subst moveCalls.simps) (simp add: Let_def a'_def)
  next
    case False
    with p show ?thesis
      by (subst moveLoop.simps, subst moveCalls.simps) (simp add: Let_def a'_def)
  qed
qed

lemma foldl_map_filter:
  assumes "\<And>a. f a None = a" "\<And>a e. f a (Some e) = h a e"
  shows "foldl f a (map c xs) = foldl h a (List.map_filter c xs)"
  by (induction xs arbitrary: a) (auto simp: List.map_filter_simps assms split: option.splits)

lemma set_cells_ClearCmbFlags: "set (cells (ClearCmbFlags t)) = clearTile ` set (cells t)"
proof -
  have r: "set (list4 (map4 f r)) = f ` set (list4 r)" for f :: "Tile \<Rightarrow> Tile" and r
    by (cases r) simp
  show ?thesis by (cases t) (simp add: ClearCmbFlags_def cells_def r image_Un)
qed

section \<open>Mass conservation\<close>

text \<open>
  A grid has bounded values when every value lies between \<open>- 2 ^ 62\<close> and
  \<open>2 ^ 62 - 1\<close>: then no merge of two of its tiles wraps around.  \<open>boardC3\<close> is a board
  on which a merge does.
\<close>

definition boundedVals :: "Grid \<Rightarrow> bool" where
  "boundedVals g = list_all (\<lambda>c. - (2 ^ 62) \<le> Val c \<and> Val c < 2 ^ 62) (cells (Tiles g))"

definition boardC3 :: Grid where
  "boardC3 = gridOf (Arr4 (Arr4 (2 ^ 62) (2 ^ 62) 0 0) (Arr4 0 0 0 0) (Arr4 0 0 0 0) (Arr4 0 0 0 0))"

lemma addInt_exact: "- (2 ^ 63) \<le> a + b \<Longrightarrow> a + b < 2 ^ 63 \<Longrightarrow> addInt a b = a + b"
  by (simp add: addInt_def wrapInt_def)

lemma sumTiles_mset: "sumTiles t = (\<Sum>c\<in>#mset (cells t). Val c)"
proof -
  obtain r0 r1 r2 r3 where t: "t = Arr4 r0 r1 r2 r3" by (cases t)
  have "sumTiles t = sum_list (map Val (cells t))"
    by (simp add: t cells_def sumTiles_def rowSum_def)
  also have "\<dots> = sum_mset (mset (map Val (cells t)))" by (simp only: sum_mset_sum_list)
  finally show ?thesis by simp
qed

definition massInv :: "int \<Rightarrow> moveState \<Rightarrow> bool" where
  "massInv S s =
     (sumTiles (mTiles s) = S \<and>
      (\<forall>c\<in>#mset (cells (mTiles s)). \<not> Cmb c \<longrightarrow> - (2 ^ 62) \<le> Val c \<and> Val c < 2 ^ 62))"

lemma massInv_rowBody:
  assumes "row \<in> {0,1,2,3}" "massInv S s"
  shows "massInv S (rowBody dir s row)"
proof -
  define M where "M = mset (cells (mTiles s))"
  define M' where "M' = mset (cells (mTiles (rowBody dir s row)))"
  from assms(2) have sum: "(\<Sum>c\<in>#M. Val c) = S"
    and bd: "\<And>c. c \<in># M \<Longrightarrow> \<not> Cmb c \<Longrightarrow> - (2 ^ 62) \<le> Val c \<and> Val c < 2 ^ 62"
    by (simp_all add: massInv_def sumTiles_mset M_def)
  from assms(1) show ?thesis
  proof (cases rule: rowBody_step_cases[where dir = dir and st = s])
    case none
    with assms(2) show ?thesis by simp
  next
    case (merge sr d)
    define Pr where "Pr = \<lparr>Val = addInt (Val d) (Val sr), Cmb = True, UUID = nextUUID s\<rparr>"
    define E where "E = sr\<lparr>Val := 0, UUID := nextUUID s + 1\<rparr>"
    have eq: "M' + {#sr, d#} = M + {#Pr, E#}"
      using merge(8) by (simp add: M_def M'_def Pr_def E_def)
    from bd[of sr] bd[of d] merge(1,2,5,6)
    have "- (2 ^ 63) \<le> Val d + Val sr" "Val d + Val sr < 2 ^ 63" by (simp_all add: M_def)
    then have v: "Val Pr = Val d + Val sr" by (simp add: Pr_def addInt_exact)
    have "(\<Sum>c\<in>#M' + {#sr, d#}. Val c) = (\<Sum>c\<in>#M + {#Pr, E#}. Val c)" by (simp only: eq)
    then have s': "(\<Sum>c\<in>#M'. Val c) = S" using sum v by (simp add: E_def)
    have "c \<in># M \<or> c = Pr \<or> c = E" if "c \<in># M'" for c
    proof -
      from that have "c \<in># M' + {#sr, d#}" by simp
      then show ?thesis unfolding eq by auto
    qed
    then have "- (2 ^ 62) \<le> Val c \<and> Val c < 2 ^ 62" if "c \<in># M'" "\<not> Cmb c" for c
      using that bd[of c] by (cases "c = Pr"; cases "c = E") (auto simp: Pr_def E_def)
    with s' show ?thesis by (simp add: massInv_def sumTiles_mset M'_def)
  next
    case (slide sr d)
    define E where "E = \<lparr>Val = 0, Cmb = False, UUID = nextUUID s\<rparr>"
    have eq: "M' + {#d#} = M + {#E#}"
      using slide(6) by (simp add: M_def M'_def E_def)
    have "(\<Sum>c\<in>#M' + {#d#}. Val c) = (\<Sum>c\<in>#M + {#E#}. Val c)" by (simp only: eq)
    then have s': "(\<Sum>c\<in>#M'. Val c) = S" using sum slide(4) by (simp add: E_def)
    have "c \<in># M \<or> c = E" if "c \<in># M'" for c
    proof -
      from that have "c \<in># M' + {#d#}" by simp
      then show ?thesis unfolding eq by auto
    qed
    then have "- (2 ^ 62) \<le> Val c \<and> Val c < 2 ^ 62" if "c \<in># M'" "\<not> Cmb c" for c
      using that bd[of c] by (cases "c = E") (auto simp: E_def)
    with s' show ?thesis by (simp add: massInv_def sumTiles_mset M'_def)
  qed
qed

lemma move_tileSum:
  assumes "boundedVals g"
  shows "tileSum (fst (move g dir u)) = tileSum g"
proof -
  define st0 where "st0 = \<lparr>mTiles = ClearCmbFlags (Tiles g), moved = False,
                            pointsGained = 0, movedThisTurn = False, nextUUID = u\<rparr>"
  have "massInv (sumTiles (Tiles g)) (moveLoop dir st0)"
  proof (rule moveLoop_inv)
    show "massInv (sumTiles (Tiles g)) st0"
      using assms
      by (auto simp: massInv_def st0_def boundedVals_def list_all_iff set_cells_ClearCmbFlags
          clearTile_def)
  next
    fix s row assume "row \<in> {0,1,2,3::int}" "massInv (sumTiles (Tiles g)) s"
    then show "massInv (sumTiles (Tiles g)) (rowBody dir s row)" by (rule massInv_rowBody)
  next
    fix s assume "massInv (sumTiles (Tiles g)) s"
    then show "massInv (sumTiles (Tiles g)) (s\<lparr>movedThisTurn := False\<rparr>)"
      by (simp add: massInv_def)
  qed
  then show ?thesis
    by (simp add: massInv_def move_def Let_def st0_def tileSum_sumTiles)
qed

text \<open>
  Claim C3, as amended (mass conservation).  Take a grid with bounded values and a call
  of \<^verbatim>\<open>Move\<close> that returns.  If no tile can move in the direction asked for, the sum of
  the tile values and every value are what they were, and nothing was drawn from the
  random source.  If some tile can move, a tile of value 2 or 4 stands in a cell that was
  empty after the slides and merges, and the sum of the tile values is the sum before the
  call plus the value of that tile.
\<close>

theorem C3_mass_conservation:
  assumes "boundedVals g" "Move g dir r u = Some (g', pts, r', u')"
  shows "if blocked g dir
         then tileSum g' = tileSum g \<and> vals g' = vals g \<and> r' = r
         else \<exists>x\<in>{0,1,2,3}. \<exists>y\<in>{0,1,2,3}.
                Val (at2 (Tiles (fst (move g dir u))) x y) = emptyTile \<and>
                Val (at2 (Tiles g') x y) \<in> {2, 4} \<and>
                tileSum g' = tileSum g + Val (at2 (Tiles g') x y)"
proof (cases "blocked g dir")
  case True
  have v: "map4 (map4 Val) (ClearCmbFlags t) = map4 (map4 Val) t" for t
  proof -
    have "map4 Val (map4 clearTile r) = map4 Val r" for r
      by (cases r) (simp add: clearTile_def)
    then show ?thesis by (cases t) (simp add: ClearCmbFlags_def)
  qed
  from assms(2) have "g' = g\<lparr>Tiles := ClearCmbFlags (Tiles g), LastMove := dir\<rparr>" "r' = r"
    by (simp_all add: Move_def blocked_move[OF True])
  with True show ?thesis by (simp add: tileSum_sumTiles vals_def v)
next
  case False
  obtain gm m p um where mv: "move g dir u = (gm, m, p, um)" by (metis prod_cases4)
  from False move_moved_iff[of g dir u] mv have m by simp
  have sm: "tileSum gm = tileSum g" using move_tileSum[OF assms(1), of dir u] mv by simp
  from \<open>m\<close> assms(2) mv obtain g2 u2 where sp: "spawnTile gm r um = Some (g2, r', u2)"
    and g': "g' = g2\<lparr>LastMove := dir\<rparr>"
    by (auto simp: Move_def split: option.splits)
  from sp show ?thesis
  proof (cases rule: spawnTile_Some)
    case (1 x y v)
    have "Val (at2 (Tiles g') x y) = v" using 1 g' by (simp add: at2_upd2_same)
    moreover have "tileSum g' = tileSum g + v"
      using 1 g' sm by (simp add: tileSum_sumTiles sumTiles_upd2)
    moreover have "Val (at2 (Tiles (fst (move g dir u))) x y) = emptyTile"
      using 1 mv by (simp add: emptyTile_def)
    moreover have "v \<in> {2, 4}" "x \<in> {0,1,2,3}" "y \<in> {0,1,2,3}" by fact+
    ultimately have "\<exists>x\<in>{0,1,2,3}. \<exists>y\<in>{0,1,2,3}.
              Val (at2 (Tiles (fst (move g dir u))) x y) = emptyTile \<and>
              Val (at2 (Tiles g') x y) \<in> {2, 4} \<and>
              tileSum g' = tileSum g + Val (at2 (Tiles g') x y)"
      by blast
    then show ?thesis using False by simp
  qed
qed

text \<open>
  Two runs of the theorem.  On the board of the example a move to the left is not
  blocked; the random source first draws the occupied cell (0, 0), then the empty cell
  (3, 3), then the value 2, and the sum goes from 8 to 10.  On the board of the blocked
  move the sum stays 6.
\<close>

theorem C3_mass_conservation_witness:
  "boundedVals boardC5 \<and> \<not> blocked boardC5 DirLeft \<and>
   (\<exists>g' pts r' u'. Move boardC5 DirLeft tapeC3 16 = Some (g', pts, r', u') \<and>
     (\<exists>x\<in>{0,1,2,3}. \<exists>y\<in>{0,1,2,3}.
         Val (at2 (Tiles (fst (move boardC5 DirLeft 16))) x y) = emptyTile \<and>
         Val (at2 (Tiles g') x y) \<in> {2, 4} \<and>
         tileSum g' = tileSum boardC5 + Val (at2 (Tiles g') x y)) \<and>
     tileSum boardC5 = 8 \<and> tileSum g' = 10) \<and>
   boundedVals boardC2 \<and> blocked boardC2 DirLeft \<and>
   (\<exists>g' pts u'. Move boardC2 DirLeft tapeC3 19 = Some (g', pts, tapeC3, u') \<and>
     tileSum g' = tileSum boardC2 \<and> vals g' = vals boardC2 \<and> tileSum g' = 6)"
proof -
  have b5: "boundedVals boardC5" by code_simp
  have nb: "\<not> blocked boardC5 DirLeft" by code_simp
  have "Move boardC5 DirLeft tapeC3 16 \<noteq> None" by code_simp
  then obtain g' pts r' u' where h: "Move boardC5 DirLeft tapeC3 16 = Some (g', pts, r', u')"
    by (cases "Move boardC5 DirLeft tapeC3 16") auto
  have s0: "tileSum boardC5 = 8" by code_simp
  have "tileSum (fst (the (Move boardC5 DirLeft tapeC3 16))) = 10" by code_simp
  with h have s1: "tileSum g' = 10" by simp
  from C3_mass_conservation[OF b5 h] nb
  have "\<exists>x\<in>{0,1,2,3}. \<exists>y\<in>{0,1,2,3}.
         Val (at2 (Tiles (fst (move boardC5 DirLeft 16))) x y) = emptyTile \<and>
         Val (at2 (Tiles g') x y) \<in> {2, 4} \<and>
         tileSum g' = tileSum boardC5 + Val (at2 (Tiles g') x y)"
    by (simp only: if_False)
  with h s0 s1
  have A: "\<exists>g' pts r' u'. Move boardC5 DirLeft tapeC3 16 = Some (g', pts, r', u') \<and>
     (\<exists>x\<in>{0,1,2,3}. \<exists>y\<in>{0,1,2,3}.
         Val (at2 (Tiles (fst (move boardC5 DirLeft 16))) x y) = emptyTile \<and>
         Val (at2 (Tiles g') x y) \<in> {2, 4} \<and>
         tileSum g' = tileSum boardC5 + Val (at2 (Tiles g') x y)) \<and>
     tileSum boardC5 = 8 \<and> tileSum g' = 10"
    by blast
  have b2: "boundedVals boardC2" by code_simp
  have bl: "blocked boardC2 DirLeft" by code_simp
  have "Move boardC2 DirLeft tapeC3 19 \<noteq> None" by code_simp
  then obtain g2 pts2 r2 u2 where h2: "Move boardC2 DirLeft tapeC3 19 = Some (g2, pts2, r2, u2)"
    by (cases "Move boardC2 DirLeft tapeC3 19") auto
  have s2: "tileSum boardC2 = 6" by code_simp
  from C3_mass_conservation[OF b2 h2] bl
  have "tileSum g2 = tileSum boardC2 \<and> vals g2 = vals boardC2 \<and> r2 = tapeC3"
    by (simp only: if_True)
  with h2 s2
  have B: "\<exists>g' pts u'. Move boardC2 DirLeft tapeC3 19 = Some (g', pts, tapeC3, u') \<and>
     tileSum g' = tileSum boardC2 \<and> vals g' = vals boardC2 \<and> tileSum g' = 6"
    by auto
  from A B b5 nb b2 bl show ?thesis by blast
qed

text \<open>
  The claim as it is written, for every grid state, fails where a merge wraps around: on
  the row \<open>2 ^ 62\<close>, \<open>2 ^ 62\<close>, 0, 0 a move to the left makes the tile \<open>- 2 ^ 63\<close>, and
  the sum after the call, with the new tile 2, is \<open>2 - 2 ^ 63\<close>, not \<open>2 ^ 63 + 2\<close>.
\<close>

theorem C3_counterexample:
  "\<not> blocked boardC3 DirLeft \<and> Move boardC3 DirLeft tapeC3 16 \<noteq> None \<and>
   tileSum boardC3 = 2 ^ 63 \<and>
   vals (fst (the (Move boardC3 DirLeft tapeC3 16))) =
     Arr4 (Arr4 (- (2 ^ 63)) 0 0 0) (Arr4 0 0 0 0) (Arr4 0 0 0 0) (Arr4 0 0 0 2) \<and>
   tileSum (fst (the (Move boardC3 DirLeft tapeC3 16))) = 2 - 2 ^ 63 \<and>
   tileSum (fst (the (Move boardC3 DirLeft tapeC3 16))) \<noteq> tileSum boardC3 + 2 \<and>
   tileSum (fst (the (Move boardC3 DirLeft tapeC3 16))) \<noteq> tileSum boardC3 + 4"
  by code_simp

section \<open>The points of a move with several merges\<close>

text \<open>
  No tile of the grid has a negative value.  \<open>lastPositive\<close> is the last positive number
  of a list, and zero when it has none.
\<close>

definition nonNegative :: "Grid \<Rightarrow> bool" where
  "nonNegative g = list_all (\<lambda>c. 0 \<le> Val c) (cells (Tiles g))"

definition lastPositive :: "int list \<Rightarrow> int" where
  "lastPositive vs = foldl (\<lambda>p v. if v > 0 then v else p) 0 vs"

definition doubles :: "mergeEvent \<Rightarrow> bool" where
  "doubles e = (Val (dst e) = Val (src e) \<and> Val (product e) = 2 * Val (src e) \<and>
                0 < Val (product e))"

definition boardC9w :: Grid where
  "boardC9w = gridOf (Arr4 (Arr4 2 2 (2 ^ 62) (2 ^ 62)) (Arr4 0 0 0 0) (Arr4 0 0 0 0) (Arr4 0 0 0 0))"

definition boardC9n :: Grid where
  "boardC9n = gridOf (Arr4 (Arr4 (- 2) (- 2) 0 0) (Arr4 0 0 0 0) (Arr4 0 0 0 0) (Arr4 0 0 0 0))"

lemma move_points:
  "fst (snd (snd (move g dir u))) = lastPositive (map (\<lambda>e. Val (product e)) (mergesOf g dir u))"
proof -
  define st0 where "st0 = \<lparr>mTiles = ClearCmbFlags (Tiles g), moved = False,
                            pointsGained = 0, movedThisTurn = False, nextUUID = u\<rparr>"
  define I where "I = (\<lambda>p (s :: moveState). pointsGained s = p)"
  define h where "h = (\<lambda>(p :: int) (e :: mergeEvent). if Val (product e) > 0 then Val (product e) else p)"
  define f where "f = (\<lambda>p (eo :: mergeEvent option). case eo of None \<Rightarrow> p | Some e \<Rightarrow> h p e)"
  have "I (foldl f 0 (map (callMerge dir) (moveCalls dir st0))) (moveLoop dir st0)"
  proof (rule moveCalls_inv)
    show "I 0 st0" by (simp add: I_def st0_def)
  next
    fix a s assume "I a s" then show "I a (s\<lparr>movedThisTurn := False\<rparr>)" by (simp add: I_def)
  next
    fix a s row assume row: "row \<in> {0,1,2,3::int}" and I: "I a s"
    from row show "I (f a (callMerge dir (at4 (orient dir (mTiles s)) row, nextUUID s))) (rowBody dir s row)"
    proof (cases rule: rowBody_step_cases[where dir = dir and st = s])
      case none
      with I show ?thesis by (simp add: f_def)
    next
      case (merge sr d)
      with I show ?thesis by (simp add: I_def f_def h_def)
    next
      case (slide sr d)
      with I show ?thesis by (simp add: I_def f_def)
    qed
  qed
  then have "pointsGained (moveLoop dir st0) = foldl f 0 (map (callMerge dir) (moveCalls dir st0))"
    by (simp add: I_def)
  also have "\<dots> = foldl h 0 (List.map_filter (callMerge dir) (moveCalls dir st0))"
    by (rule foldl_map_filter) (simp_all add: f_def)
  also have "\<dots> = lastPositive (map (\<lambda>e. Val (product e)) (mergesOf g dir u))"
    by (simp add: lastPositive_def mergesOf_def st0_def h_def foldl_map)
  finally show ?thesis by (simp add: move_def st0_def Let_def)
qed

definition doubleInv :: "bool \<Rightarrow> moveState \<Rightarrow> bool" where
  "doubleInv ok s =
     (ok \<and> (\<forall>c\<in>#mset (cells (mTiles s)). 0 \<le> Val c \<and> (\<not> Cmb c \<longrightarrow> Val c < 2 ^ 62)))"

lemma move_doubles:
  assumes "nonNegative g" "boundedVals g"
  shows "list_all doubles (mergesOf g dir u)"
proof -
  define st0 where "st0 = \<lparr>mTiles = ClearCmbFlags (Tiles g), moved = False,
                            pointsGained = 0, movedThisTurn = False, nextUUID = u\<rparr>"
  define f where "f = (\<lambda>ok (eo :: mergeEvent option). case eo of None \<Rightarrow> ok | Some e \<Rightarrow> ok \<and> doubles e)"
  have "doubleInv (foldl f True (map (callMerge dir) (moveCalls dir st0))) (moveLoop dir st0)"
  proof (rule moveCalls_inv)
    show "doubleInv True st0"
      using assms
      by (auto simp: doubleInv_def st0_def nonNegative_def boundedVals_def list_all_iff
          set_cells_ClearCmbFlags clearTile_def)
  next
    fix a s assume "doubleInv a s" then show "doubleInv a (s\<lparr>movedThisTurn := False\<rparr>)"
      by (simp add: doubleInv_def)
  next
    fix a s row assume row: "row \<in> {0,1,2,3::int}" and I: "doubleInv a s"
    define M where "M = mset (cells (mTiles s))"
    define M' where "M' = mset (cells (mTiles (rowBody dir s row)))"
    from I have a: a and nn: "\<And>c. c \<in># M \<Longrightarrow> 0 \<le> Val c"
      and bd: "\<And>c. c \<in># M \<Longrightarrow> \<not> Cmb c \<Longrightarrow> Val c < 2 ^ 62"
      by (simp_all add: doubleInv_def M_def)
    from row show "doubleInv (f a (callMerge dir (at4 (orient dir (mTiles s)) row, nextUUID s))) (rowBody dir s row)"
    proof (cases rule: rowBody_step_cases[where dir = dir and st = s])
      case none
      with I show ?thesis by (simp add: f_def)
    next
      case (merge sr d)
      define Pr where "Pr = \<lparr>Val = addInt (Val d) (Val sr), Cmb = True, UUID = nextUUID s\<rparr>"
      define E where "E = sr\<lparr>Val := 0, UUID := nextUUID s + 1\<rparr>"
      have eq: "M' + {#sr, d#} = M + {#Pr, E#}"
        using merge(8) by (simp add: M_def M'_def Pr_def E_def)
      from nn[of sr] bd[of sr] bd[of d] merge(1-6)
      have r: "0 < Val sr" "Val sr < 2 ^ 62" "Val d < 2 ^ 62" by (simp_all add: M_def)
      with merge(4) have "- (2 ^ 63) \<le> Val d + Val sr" "Val d + Val sr < 2 ^ 63" by simp_all
      then have v: "addInt (Val d) (Val sr) = Val d + Val sr" by (rule addInt_exact)
      have dbl: "doubles \<lparr>src = sr, dst = d, product = Pr\<rparr>"
        using r merge(4) v by (simp add: doubles_def Pr_def)
      have "c \<in># M \<or> c = Pr \<or> c = E" if "c \<in># M'" for c
      proof -
        from that have "c \<in># M' + {#sr, d#}" by simp
        then show ?thesis unfolding eq by auto
      qed
      then have "0 \<le> Val c \<and> (\<not> Cmb c \<longrightarrow> Val c < 2 ^ 62)" if "c \<in># M'" for c
        using that nn[of c] bd[of c] r merge(4) v
        by (cases "c = Pr"; cases "c = E") (auto simp: Pr_def E_def)
      with a dbl show ?thesis
        unfolding merge(7) by (simp add: doubleInv_def f_def M'_def Pr_def)
    next
      case (slide sr d)
      define E where "E = \<lparr>Val = 0, Cmb = False, UUID = nextUUID s\<rparr>"
      have eq: "M' + {#d#} = M + {#E#}"
        using slide(6) by (simp add: M_def M'_def E_def)
      have "c \<in># M \<or> c = E" if "c \<in># M'" for c
      proof -
        from that have "c \<in># M' + {#d#}" by simp
        then show ?thesis unfolding eq by auto
      qed
      then have "0 \<le> Val c \<and> (\<not> Cmb c \<longrightarrow> Val c < 2 ^ 62)" if "c \<in># M'" for c
        using that nn[of c] bd[of c] by (cases "c = E") (auto simp: E_def)
      with a show ?thesis
        unfolding slide(5) by (simp add: doubleInv_def f_def M'_def)
    qed
  qed
  then have "foldl f True (map (callMerge dir) (moveCalls dir st0))" by (simp add: doubleInv_def)
  moreover have "foldl f True (map (callMerge dir) (moveCalls dir st0)) =
                 foldl (\<lambda>ok e. ok \<and> doubles e) True (mergesOf g dir u)"
    unfolding mergesOf_def st0_def[symmetric]
    by (rule foldl_map_filter) (simp_all add: f_def)
  moreover have "foldl (\<lambda>ok e. ok \<and> doubles e) b es = (b \<and> list_all doubles es)" for b es
    by (induction es arbitrary: b) auto
  ultimately show ?thesis by simp
qed

lemma lastPositive_last:
  assumes "list_all (\<lambda>v. 0 < v) vs"
  shows "lastPositive vs = (if vs = [] then 0 else last vs)"
proof -
  have "foldl (\<lambda>p v. if v > 0 then v else p) a vs = (if vs = [] then a else last vs)" for a
    using assms by (induction vs arbitrary: a) auto
  then show ?thesis by (simp add: lastPositive_def)
qed

text \<open>
  Claim C9, as amended.  The points that \<^verbatim>\<open>Move\<close> returns are the value of the tile
  produced by the last merge of the call whose product has a positive value, and zero
  when there is none: they are not the sum over the merges.  On a grid whose values are
  not negative and below \<open>2 ^ 62\<close>, every merge takes two tiles of one value and
  produces a tile of twice that value, which is positive; so there the points are the
  value produced by the last merge of the call.
\<close>

theorem C9_points_of_last_merge:
  assumes "Move g dir r u = Some (g', pts, r', u')"
  shows "pts = lastPositive (map (\<lambda>e. Val (product e)) (mergesOf g dir u)) \<and>
         (nonNegative g \<and> boundedVals g \<longrightarrow>
            list_all doubles (mergesOf g dir u) \<and>
            pts = (if mergesOf g dir u = [] then 0
                   else Val (product (last (mergesOf g dir u)))))"
proof -
  from assms have "pts = fst (snd (snd (move g dir u)))"
    by (auto simp: Move_def split: prod.splits if_splits option.splits)
  then have p: "pts = lastPositive (map (\<lambda>e. Val (product e)) (mergesOf g dir u))"
    by (simp add: move_points)
  have "pts = (if mergesOf g dir u = [] then 0 else Val (product (last (mergesOf g dir u))))"
    if "list_all doubles (mergesOf g dir u)"
  proof -
    from that have "list_all (\<lambda>v. 0 < v) (map (\<lambda>e. Val (product e)) (mergesOf g dir u))"
      by (auto simp: list_all_iff doubles_def)
    from lastPositive_last[OF this] p show ?thesis by (simp add: last_map)
  qed
  with p move_doubles[of g dir u] show ?thesis by blast
qed

text \<open>
  The example of the claim: a move to the left on the row 2, 2, 2, 2 merges twice, each
  merge makes a 4, and the call returns 4, not 8.
\<close>

theorem C9_points_of_last_merge_witness:
  "nonNegative boardC9 \<and> boundedVals boardC9 \<and>
   map (\<lambda>e. Val (product e)) (mergesOf boardC9 DirLeft 16) = [4, 4] \<and>
   list_all doubles (mergesOf boardC9 DirLeft 16) \<and>
   (\<exists>g' r' u'. Move boardC9 DirLeft tapeC3 16 = Some (g', 4, r', u'))"
proof -
  have n: "nonNegative boardC9" by code_simp
  have b: "boundedVals boardC9" by code_simp
  have m: "map (\<lambda>e. Val (product e)) (mergesOf boardC9 DirLeft 16) = [4, 4]" by code_simp
  have l: "mergesOf boardC9 DirLeft 16 \<noteq> []"
    "Val (product (last (mergesOf boardC9 DirLeft 16))) = 4"
    by code_simp+
  have "Move boardC9 DirLeft tapeC3 16 \<noteq> None" by code_simp
  then obtain g' pts r' u' where h: "Move boardC9 DirLeft tapeC3 16 = Some (g', pts, r', u')"
    by (cases "Move boardC9 DirLeft tapeC3 16") auto
  from C9_points_of_last_merge[OF h] n b l
  have "pts = 4" "list_all doubles (mergesOf boardC9 DirLeft 16)" by simp_all
  with h n b m show ?thesis by simp
qed

text \<open>
  The claim as it is written fails where the product of the last merge is not positive.
  On the row 2, 2, \<open>2 ^ 62\<close>, \<open>2 ^ 62\<close> a move to the left merges twice: the first merge
  makes 4, the last one wraps around to \<open>- 2 ^ 63\<close>, and the call returns 4.  On the
  row -2, -2, 0, 0 the one merge makes -4, and the call returns 0.
\<close>

theorem C9_counterexample:
  "nonNegative boardC9w \<and>
   map (\<lambda>e. Val (product e)) (mergesOf boardC9w DirLeft 16) = [4, - (2 ^ 63)] \<and>
   map_option (\<lambda>res. fst (snd res)) (Move boardC9w DirLeft tapeC3 16) = Some 4 \<and>
   boundedVals boardC9n \<and>
   map (\<lambda>e. Val (product e)) (mergesOf boardC9n DirLeft 16) = [- 4] \<and>
   map_option (\<lambda>res. fst (snd res)) (Move boardC9n DirLeft tapeC3 16) = Some 0"
  by code_simp

section \<open>A tile merges at most once in a move\<close>

text \<open>
  The identities of a grid are fresh for a generator state when the generator made all
  of them before; they are distinct when no two tiles share one.  Two merges are apart
  when the later one takes neither the product nor a tile of the earlier one;
  \<open>mergeOnce\<close> says so of every two merges of a list, given in the order they happen.
\<close>

definition freshIds :: "Grid \<Rightarrow> uuid \<Rightarrow> bool" where
  "freshIds g u = list_all (\<lambda>c. UUID c < u) (cells (Tiles g))"

definition distinctIds :: "Grid \<Rightarrow> bool" where
  "distinctIds g = distinct (map UUID (cells (Tiles g)))"

definition apart :: "mergeEvent \<Rightarrow> mergeEvent \<Rightarrow> bool" where
  "apart e e' =
     (UUID (src e') \<notin> {UUID (product e), UUID (src e), UUID (dst e)} \<and>
      UUID (dst e') \<notin> {UUID (product e), UUID (src e), UUID (dst e)})"

fun mergeOnce :: "mergeEvent list \<Rightarrow> bool" where
  "mergeOnce [] = True"
| "mergeOnce (e # es) = (list_all (apart e) es \<and> mergeOnce es)"

definition flagged :: "mergeEvent \<Rightarrow> bool" where
  "flagged e = (\<not> Cmb (src e) \<and> \<not> Cmb (dst e) \<and> Cmb (product e))"

text \<open>The check of a list of merges against the identities used so far.\<close>

fun chk :: "uuid set \<Rightarrow> mergeEvent list \<Rightarrow> bool" where
  "chk U [] = True"
| "chk U (e # es) =
     (UUID (src e) \<notin> U \<and> UUID (dst e) \<notin> U \<and> flagged e \<and>
      chk (U \<union> {UUID (product e), UUID (src e), UUID (dst e)}) es)"

lemma chk_mergeOnce:
  "chk U es \<Longrightarrow> mergeOnce es \<and> list_all flagged es \<and>
     (\<forall>e\<in>set es. UUID (src e) \<notin> U \<and> UUID (dst e) \<notin> U)"
proof (induction es arbitrary: U)
  case Nil
  then show ?case by simp
next
  case (Cons e es)
  from Cons.prems have c: "chk (U \<union> {UUID (product e), UUID (src e), UUID (dst e)}) es" by simp
  from Cons.IH[OF c] Cons.prems show ?case
    by (auto simp: list_all_iff apart_def)
qed

text \<open>The accumulator: the identities of the products, those of the tiles merged, and
  whether every merge so far took tiles that no earlier merge had used or made.\<close>

definition accMerge :: "uuid set \<times> uuid set \<times> bool \<Rightarrow> mergeEvent \<Rightarrow> uuid set \<times> uuid set \<times> bool" where
  "accMerge a e = (case a of (P, C, ok) \<Rightarrow>
     (insert (UUID (product e)) P, C \<union> {UUID (src e), UUID (dst e)},
      ok \<and> UUID (src e) \<notin> P \<union> C \<and> UUID (dst e) \<notin> P \<union> C \<and> flagged e))"

lemma foldl_accMerge_chk:
  "foldl accMerge (P, C, ok) es = (P', C', ok') \<Longrightarrow> ok' \<Longrightarrow> ok \<and> chk (P \<union> C) es"
proof (induction es arbitrary: P C ok)
  case Nil
  then show ?case by simp
next
  case (Cons e es)
  define P1 where "P1 = insert (UUID (product e)) P"
  define C1 where "C1 = C \<union> {UUID (src e), UUID (dst e)}"
  define ok1 where "ok1 = (ok \<and> UUID (src e) \<notin> P \<union> C \<and> UUID (dst e) \<notin> P \<union> C \<and> flagged e)"
  have "accMerge (P, C, ok) e = (P1, C1, ok1)"
    by (simp add: accMerge_def P1_def C1_def ok1_def)
  with Cons.prems(1) have "foldl accMerge (P1, C1, ok1) es = (P', C', ok')"
    by (simp only: foldl_Cons)
  from Cons.IH[OF this Cons.prems(2)] have "ok1" "chk (P1 \<union> C1) es" by simp_all
  moreover have "P1 \<union> C1 = P \<union> C \<union> {UUID (product e), UUID (src e), UUID (dst e)}"
    by (auto simp: P1_def C1_def)
  ultimately show ?case by (simp add: ok1_def)
qed

definition idInv :: "uuid set \<times> uuid set \<times> bool \<Rightarrow> moveState \<Rightarrow> bool" where
  "idInv a s = (case a of (P, C, ok) \<Rightarrow>
     ok \<and>
     (\<forall>c\<in>#mset (cells (mTiles s)). UUID c < nextUUID s \<and> (UUID c \<in> P \<longrightarrow> Cmb c) \<and> UUID c \<notin> C) \<and>
     (\<forall>x\<in>P \<union> C. x < nextUUID s) \<and>
     (\<forall>x. count (image_mset UUID (mset (cells (mTiles s)))) x \<le> 1))"

lemma idInv_merge:
  assumes I: "idInv (P, C, ok) s"
    and s: "sr \<in># mset (cells (mTiles s))" and d: "d \<in># mset (cells (mTiles s))"
    and f: "\<not> Cmb sr" "\<not> Cmb d"
    and eq: "mset (cells (mTiles s')) + {#sr, d#} =
         mset (cells (mTiles s)) +
         {#\<lparr>Val = v, Cmb = True, UUID = nextUUID s\<rparr>, sr\<lparr>Val := 0, UUID := nextUUID s + 1\<rparr>#}"
    and u: "nextUUID s' = nextUUID s + 2"
  shows "idInv (accMerge (P, C, ok) \<lparr>src = sr, dst = d,
            product = \<lparr>Val = v, Cmb = True, UUID = nextUUID s\<rparr>\<rparr>) s'"
proof -
  define M where "M = mset (cells (mTiles s))"
  define M' where "M' = mset (cells (mTiles s'))"
  define un where "un = nextUUID s"
  define Pr where "Pr = \<lparr>Val = v, Cmb = True, UUID = un\<rparr>"
  define E where "E = sr\<lparr>Val := 0, UUID := un + 1\<rparr>"
  note eq' = eq[folded M_def M'_def un_def, folded Pr_def E_def]
  from I have ok: ok
    and c1: "\<And>c. c \<in># M \<Longrightarrow> UUID c < un" and c2: "\<And>c. c \<in># M \<Longrightarrow> UUID c \<in> P \<Longrightarrow> Cmb c"
    and c3: "\<And>c. c \<in># M \<Longrightarrow> UUID c \<notin> C" and pc: "\<And>x. x \<in> P \<union> C \<Longrightarrow> x < un"
    and dis: "\<And>x. count (image_mset UUID M) x \<le> 1"
    by (auto simp: idInv_def M_def un_def)
  have sM: "sr \<in># M" "d \<in># M" using s d by (simp_all add: M_def)
  have mem: "c \<in># M \<or> c = Pr \<or> c = E" if "c \<in># M'" for c
  proof -
    from that have "c \<in># M' + {#sr, d#}" by simp
    then show ?thesis unfolding eq' by auto
  qed
  have ids: "image_mset UUID M' + {#UUID sr, UUID d#} = image_mset UUID M + {#un, un + 1#}"
  proof -
    have "image_mset UUID (M' + {#sr, d#}) = image_mset UUID (M + {#Pr, E#})"
      by (simp only: eq')
    then show ?thesis by (simp add: Pr_def E_def)
  qed
  have cnt: "count (image_mset UUID M') x + (if x = UUID sr then 1 else 0) + (if x = UUID d then 1 else 0)
      = count (image_mset UUID M) x + (if x = un then 1 else 0) + (if x = un + 1 then 1 else 0)" for x
  proof -
    have "count (image_mset UUID M' + {#UUID sr, UUID d#}) x = count (image_mset UUID M + {#un, un + 1#}) x"
      by (simp only: ids)
    then show ?thesis by auto
  qed
  have "un \<notin> UUID ` set_mset M" "un + 1 \<notin> UUID ` set_mset M"
    using c1 by force+
  then have z: "count (image_mset UUID M) un = 0" "count (image_mset UUID M) (un + 1) = 0"
    by (simp_all add: count_eq_zero_iff)
  have lt: "UUID sr < un" "UUID d < un" using sM c1 by auto
  have in_ids: "UUID sr \<in># image_mset UUID M" "UUID d \<in># image_mset UUID M"
    using sM by (simp_all add: in_image_mset)
  have one: "count (image_mset UUID M) (UUID sr) = 1" "count (image_mset UUID M) (UUID d) = 1"
  proof -
    have "1 \<le> count (image_mset UUID M) (UUID sr)"
      using in_ids(1) by (simp only: count_greater_eq_one_iff)
    with dis[of "UUID sr"] show "count (image_mset UUID M) (UUID sr) = 1" by (rule le_antisym)
    have "1 \<le> count (image_mset UUID M) (UUID d)"
      using in_ids(2) by (simp only: count_greater_eq_one_iff)
    with dis[of "UUID d"] show "count (image_mset UUID M) (UUID d) = 1" by (rule le_antisym)
  qed
  have gone: "count (image_mset UUID M') (UUID sr) = 0" "count (image_mset UUID M') (UUID d) = 0"
    using cnt[of "UUID sr"] cnt[of "UUID d"] one lt by (auto split: if_splits)
  have gone': "UUID sr \<notin># image_mset UUID M'" "UUID d \<notin># image_mset UUID M'"
    using gone by (simp_all only: count_eq_zero_iff not_False_eq_True)
  have notin: "UUID c \<noteq> UUID sr" "UUID c \<noteq> UUID d" if "c \<in># M'" for c
  proof -
    from that have "UUID c \<in># image_mset UUID M'" by (simp add: in_image_mset)
    with gone' show "UUID c \<noteq> UUID sr" "UUID c \<noteq> UUID d" by metis+
  qed
  have dis': "count (image_mset UUID M') x \<le> 1" for x
    using cnt[of x] dis[of x] z by (auto split: if_splits)
  have A: "UUID sr \<notin> P \<union> C" "UUID d \<notin> P \<union> C"
    using sM c2 c3 f by auto
  have B: "UUID c < un + 2 \<and> (UUID c \<in> insert un P \<longrightarrow> Cmb c) \<and>
           UUID c \<notin> C \<union> {UUID sr, UUID d}" if "c \<in># M'" for c
    using mem[OF that] notin[OF that]
  proof (elim disjE)
    assume "c \<in># M"
    with c1[of c] c2[of c] c3[of c] notin[OF that] show ?thesis by auto
  next
    assume "c = Pr"
    with pc[of un] notin[OF that] show ?thesis by (auto simp: Pr_def)
  next
    assume "c = E"
    with pc[of "un + 1"] notin[OF that] show ?thesis by (auto simp: E_def)
  qed
  have Cc: "x < un + 2" if "x \<in> insert un P \<union> (C \<union> {UUID sr, UUID d})" for x
    using that pc[of x] lt by auto
  show ?thesis
    unfolding idInv_def accMerge_def
    using ok A f B Cc dis'
    by (simp add: flagged_def u M'_def[symmetric] un_def[symmetric])
qed

lemma idInv_replace:
  assumes I: "idInv (P, C, ok) s"
    and eq: "mset (cells (mTiles s')) + {#d#} = mset (cells (mTiles s)) + {#E#}"
    and uE: "UUID E = nextUUID s"
    and u: "nextUUID s' = nextUUID s + 1"
  shows "idInv (P, C, ok) s'"
proof -
  define M where "M = mset (cells (mTiles s))"
  define M' where "M' = mset (cells (mTiles s'))"
  define un where "un = nextUUID s"
  note eq' = eq[folded M_def M'_def]
  have E_def: "UUID E = un" using uE by (simp add: un_def)
  from I have ok: ok
    and c1: "\<And>c. c \<in># M \<Longrightarrow> UUID c < un" and c2: "\<And>c. c \<in># M \<Longrightarrow> UUID c \<in> P \<Longrightarrow> Cmb c"
    and c3: "\<And>c. c \<in># M \<Longrightarrow> UUID c \<notin> C" and pc: "\<And>x. x \<in> P \<union> C \<Longrightarrow> x < un"
    and dis: "\<And>x. count (image_mset UUID M) x \<le> 1"
    by (auto simp: idInv_def M_def un_def)
  have mem: "c \<in># M \<or> c = E" if "c \<in># M'" for c
  proof -
    from that have "c \<in># M' + {#d#}" by simp
    then show ?thesis unfolding eq' by auto
  qed
  have ids: "image_mset UUID M' + {#UUID d#} = image_mset UUID M + {#un#}"
  proof -
    have "image_mset UUID (M' + {#d#}) = image_mset UUID (M + {#E#})"
      by (simp only: eq')
    then show ?thesis by (simp add: E_def)
  qed
  have cnt: "count (image_mset UUID M') x + (if x = UUID d then 1 else 0)
      = count (image_mset UUID M) x + (if x = un then 1 else 0)" for x
  proof -
    have "count (image_mset UUID M' + {#UUID d#}) x = count (image_mset UUID M + {#un#}) x"
      by (simp only: ids)
    then show ?thesis by auto
  qed
  have "un \<notin> UUID ` set_mset M" using c1 by force
  then have z: "count (image_mset UUID M) un = 0" by (simp add: count_eq_zero_iff)
  have dis': "count (image_mset UUID M') x \<le> 1" for x
    using cnt[of x] dis[of x] z by (auto split: if_splits)
  have B: "UUID c < un + 1 \<and> (UUID c \<in> P \<longrightarrow> Cmb c) \<and> UUID c \<notin> C" if "c \<in># M'" for c
    using mem[OF that]
  proof (elim disjE)
    assume "c \<in># M"
    with c1[of c] c2[of c] c3[of c] show ?thesis by auto
  next
    assume "c = E"
    with pc[of un] show ?thesis by (auto simp: E_def)
  qed
  have Cc: "x < un + 1" if "x \<in> P \<union> C" for x
    using that pc[of x] by auto
  show ?thesis
    unfolding idInv_def
    using ok B Cc dis'
    by (simp add: u M'_def[symmetric] un_def[symmetric])
qed

lemma idInv_slide:
  assumes "idInv (P, C, ok) s"
    and "mset (cells (mTiles s')) + {#d#} =
         mset (cells (mTiles s)) + {#\<lparr>Val = 0, Cmb = False, UUID = nextUUID s\<rparr>#}"
    and "nextUUID s' = nextUUID s + 1"
  shows "idInv (P, C, ok) s'"
  using assms(1,2) _ assms(3) by (rule idInv_replace) simp

definition accStep :: "uuid set \<times> uuid set \<times> bool \<Rightarrow> mergeEvent option \<Rightarrow> uuid set \<times> uuid set \<times> bool" where
  "accStep a eo = (case eo of None \<Rightarrow> a | Some e \<Rightarrow> accMerge a e)"

lemma idInv_rowBody:
  assumes "row \<in> {0,1,2,3}" "idInv a s"
  shows "idInv (accStep a (callMerge dir (at4 (orient dir (mTiles s)) row, nextUUID s)))
           (rowBody dir s row)"
proof -
  obtain P C ok where a: "a = (P, C, ok)" by (cases a)
  from assms(1) show ?thesis
  proof (cases rule: rowBody_step_cases[where dir = dir and st = s])
    case none
    with assms(2) show ?thesis by (simp add: accStep_def)
  next
    case (merge sr d)
    from idInv_merge[OF assms(2)[unfolded a] merge(1,2,5,6,8,10)]
    show ?thesis unfolding merge(7) a by (simp add: accStep_def)
  next
    case (slide sr d)
    from idInv_slide[OF assms(2)[unfolded a] slide(6,8)]
    show ?thesis unfolding slide(5) a by (simp add: accStep_def)
  qed
qed

lemma idInv_moveLoop:
  assumes "idInv a st"
  shows "idInv (foldl accStep a (map (callMerge dir) (moveCalls dir st))) (moveLoop dir st)"
proof (rule moveCalls_inv[where I = idInv and f = accStep])
  show "idInv a st" by fact
next
  fix a s row assume "row \<in> {0,1,2,3::int}" "idInv a s"
  then show "idInv (accStep a (callMerge dir (at4 (orient dir (mTiles s)) row, nextUUID s)))
           (rowBody dir s row)" by (rule idInv_rowBody)
next
  fix a s assume "idInv a s"
  then show "idInv a (s\<lparr>movedThisTurn := False\<rparr>)" by (simp add: idInv_def)
qed

lemma cells_ClearCmbFlags_ids: "map UUID (cells (ClearCmbFlags t)) = map UUID (cells t)"
proof -
  have r: "map UUID (list4 (map4 clearTile r)) = map UUID (list4 r)" for r
    by (cases r) (simp add: clearTile_def)
  show ?thesis by (cases t) (simp add: ClearCmbFlags_def cells_def r)
qed

lemma distinct_count_le1: "distinct xs \<Longrightarrow> count (mset xs) x \<le> 1"
  by (simp add: distinct_count_atmost_1)

lemma idInv_initial:
  assumes "freshIds g u" "distinctIds g"
  shows "idInv ({}, {}, True) \<lparr>mTiles = ClearCmbFlags (Tiles g), moved = False, pointsGained = 0,
                        movedThisTurn = False, nextUUID = u\<rparr>"
proof -
  have "\<forall>c\<in>set (cells (ClearCmbFlags (Tiles g))). UUID c < u"
    using assms(1) by (auto simp: freshIds_def list_all_iff set_cells_ClearCmbFlags clearTile_def)
  moreover have "count (image_mset UUID (mset (cells (ClearCmbFlags (Tiles g))))) x \<le> 1" for x
  proof -
    have "image_mset UUID (mset (cells (ClearCmbFlags (Tiles g)))) = mset (map UUID (cells (Tiles g)))"
      by (simp add: cells_ClearCmbFlags_ids flip: mset_map)
    moreover have "count (mset (map UUID (cells (Tiles g)))) x \<le> 1"
      using assms(2) unfolding distinctIds_def by (rule distinct_count_le1)
    ultimately show ?thesis by (simp only:)
  qed
  ultimately show ?thesis by (simp add: idInv_def)
qed

lemma move_mergeOnce:
  assumes "freshIds g u" "distinctIds g"
  shows "mergeOnce (mergesOf g dir u) \<and> list_all flagged (mergesOf g dir u)"
proof -
  define st0 where "st0 = \<lparr>mTiles = ClearCmbFlags (Tiles g), moved = False, pointsGained = 0,
                        movedThisTurn = False, nextUUID = u\<rparr>"
  have "idInv (foldl accStep ({}, {}, True) (map (callMerge dir) (moveCalls dir st0))) (moveLoop dir st0)"
    unfolding st0_def by (rule idInv_moveLoop[OF idInv_initial[OF assms]])
  moreover have "foldl accStep ({}, {}, True) (map (callMerge dir) (moveCalls dir st0)) =
                 foldl accMerge ({}, {}, True) (mergesOf g dir u)"
    unfolding mergesOf_def st0_def[symmetric]
    by (rule foldl_map_filter) (simp_all add: accStep_def)
  ultimately have I: "idInv (foldl accMerge ({}, {}, True) (mergesOf g dir u)) (moveLoop dir st0)"
    by simp
  obtain P' C' ok' where f: "foldl accMerge ({}, {}, True) (mergesOf g dir u) = (P', C', ok')"
    by (metis prod_cases3)
  with I have ok' by (simp add: idInv_def)
  from foldl_accMerge_chk[OF f this] have "chk {} (mergesOf g dir u)" by simp
  from chk_mergeOnce[OF this] show ?thesis by simp
qed

lemma count_le1_distinct: "(\<And>x. count (mset xs) x \<le> 1) \<Longrightarrow> distinct xs"
proof (induction xs)
  case Nil
  then show ?case by simp
next
  case (Cons a xs)
  have "count (mset xs) x \<le> 1" for x
  proof -
    have "count (mset xs) x \<le> count (mset (a # xs)) x" by simp
    also have "\<dots> \<le> 1" by (rule Cons.prems)
    finally show ?thesis .
  qed
  then have d: "distinct xs" by (rule Cons.IH)
  have "count (mset xs) a = 0" using Cons.prems[of a] by simp
  then have "a \<notin> set xs" by (simp add: count_eq_zero_iff)
  with d show ?case by simp
qed

lemma idInv_fresh_distinct:
  assumes "idInv a s"
  shows "freshIds \<lparr>Tiles = mTiles s, LastMove = l\<rparr> (nextUUID s) \<and>
         distinctIds \<lparr>Tiles = mTiles s, LastMove = l\<rparr>"
proof -
  obtain P C ok where a: "a = (P, C, ok)" by (cases a)
  from assms have f: "\<forall>c\<in>set (cells (mTiles s)). UUID c < nextUUID s"
    and d: "\<And>x. count (image_mset UUID (mset (cells (mTiles s)))) x \<le> 1"
    by (auto simp: idInv_def a)
  have "distinct (map UUID (cells (mTiles s)))"
    by (rule count_le1_distinct) (use d in simp)
  with f show ?thesis by (simp add: freshIds_def distinctIds_def list_all_iff)
qed

lemma freshIds_cong:
  "Tiles g = Tiles g' \<Longrightarrow> freshIds g u = freshIds g' u"
  "Tiles g = Tiles g' \<Longrightarrow> distinctIds g = distinctIds g'"
  by (simp_all add: freshIds_def distinctIds_def)

lemma mset_cells_upd2:
  assumes "x \<in> {0,1,2,3}" "y \<in> {0,1,2,3}"
  shows "mset (cells (upd2 t x y c)) + {#at2 t x y#} = mset (cells t) + {#c#}"
proof -
  have "mset (cells (upd2 t x y c)) + mset (list4 (at4 t x)) =
        mset (cells t) + mset (list4 (upd4 (at4 t x) y c))"
    unfolding upd2_def by (rule mset_cells_upd4[OF assms(1)])
  moreover have "mset (list4 (upd4 (at4 t x) y c)) + {#at2 t x y#} = mset (list4 (at4 t x)) + {#c#}"
    unfolding at2_def by (rule mset_list4_upd4[OF assms(2)])
  ultimately show ?thesis by (rule mset_chain)
qed

lemma Move_ids:
  assumes "freshIds g u" "distinctIds g" "Move g dir r u = Some (g', pts, r', u')"
  shows "freshIds g' u' \<and> distinctIds g'"
proof -
  define st0 where "st0 = \<lparr>mTiles = ClearCmbFlags (Tiles g), moved = False, pointsGained = 0,
                        movedThisTurn = False, nextUUID = u\<rparr>"
  define st where "st = moveLoop dir st0"
  define a where "a = foldl accStep ({}, {}, True) (map (callMerge dir) (moveCalls dir st0))"
  have I: "idInv a st"
    unfolding st_def st0_def a_def by (rule idInv_moveLoop[OF idInv_initial[OF assms(1,2)]])
  have mv: "move g dir u = (g\<lparr>Tiles := mTiles st\<rparr>, moved st, pointsGained st, nextUUID st)"
    by (simp add: move_def st_def st0_def Let_def)
  show ?thesis
  proof (cases "moved st")
    case False
    with assms(3) mv have "g' = g\<lparr>Tiles := mTiles st, LastMove := dir\<rparr>" "u' = nextUUID st"
      by (simp_all add: Move_def)
    with idInv_fresh_distinct[OF I, of dir] show ?thesis
      by (simp add: freshIds_def distinctIds_def)
  next
    case True
    with assms(3) mv obtain g2 u2 where sp: "spawnTile (g\<lparr>Tiles := mTiles st\<rparr>) r (nextUUID st) = Some (g2, r', u2)"
      and g': "g' = g2\<lparr>LastMove := dir\<rparr>" and u': "u' = u2"
      by (auto simp: Move_def split: option.splits)
    from sp show ?thesis
    proof (cases rule: spawnTile_Some)
      case (1 x y v)
      define E where "E = (at2 (mTiles st) x y)\<lparr>Val := v, UUID := nextUUID st\<rparr>"
      define s' where "s' = \<lparr>mTiles = upd2 (mTiles st) x y E, moved = True, pointsGained = 0,
                             movedThisTurn = False, nextUUID = nextUUID st + 1\<rparr>"
      obtain P C ok where a: "a = (P, C, ok)" by (cases a)
      have "idInv (P, C, ok) s'"
      proof (rule idInv_replace[OF I[unfolded a]])
        show "mset (cells (mTiles s')) + {#at2 (mTiles st) x y#} = mset (cells (mTiles st)) + {#E#}"
          using mset_cells_upd2[OF 1(1,2), of "mTiles st" E] by (simp add: s'_def)
      qed (simp_all add: E_def s'_def)
      from idInv_fresh_distinct[OF this, of dir] 1 g' u' show ?thesis
        by (simp add: freshIds_def distinctIds_def s'_def E_def)
    qed
  qed
qed

text \<open>
  A board accounts for a list of merges when every flagged tile on it is the product of
  one of them, no tile on it carries the identity of a tile that one of them took, and
  the product of each of them is on it (unless its value wrapped around to zero, the
  value of an empty cell).
\<close>

definition accounted :: "mergeEvent list \<Rightarrow> tiles \<Rightarrow> bool" where
  "accounted es t =
     (list_all (\<lambda>c. (Cmb c \<longrightarrow> c \<in> set (map product es)) \<and>
                    list_all (\<lambda>e. UUID c \<noteq> UUID (src e) \<and> UUID c \<noteq> UUID (dst e)) es)
        (cells t) \<and>
      list_all (\<lambda>e. Val (product e) \<noteq> emptyTile \<longrightarrow> product e \<in> set (cells t)) es)"

text \<open>The board that the first move of the example returns: the row 4, 4, 0, 0.\<close>

definition boardC4 :: Grid where
  "boardC4 = fst (move boardC5 DirLeft 16)"

lemma foldl_accMerge_taken:
  "foldl accMerge (P, C, ok) es = (P', C', ok') \<Longrightarrow>
   C' = C \<union> (\<Union>e\<in>set es. {UUID (src e), UUID (dst e)})"
proof (induction es arbitrary: P C ok)
  case Nil
  then show ?case by simp
next
  case (Cons e es)
  define P1 where "P1 = insert (UUID (product e)) P"
  define C1 where "C1 = C \<union> {UUID (src e), UUID (dst e)}"
  define ok1 where "ok1 = (ok \<and> UUID (src e) \<notin> P \<union> C \<and> UUID (dst e) \<notin> P \<union> C \<and> flagged e)"
  have "accMerge (P, C, ok) e = (P1, C1, ok1)"
    by (simp add: accMerge_def P1_def C1_def ok1_def)
  with Cons.prems have "foldl accMerge (P1, C1, ok1) es = (P', C', ok')"
    by (simp only: foldl_Cons)
  from Cons.IH[OF this] show ?case by (auto simp: C1_def)
qed

definition prodInv :: "Tile set \<Rightarrow> moveState \<Rightarrow> bool" where
  "prodInv Ps s =
     ((\<forall>c\<in>#mset (cells (mTiles s)). Cmb c \<longrightarrow> c \<in> Ps) \<and>
      (\<forall>p\<in>Ps. Cmb p \<and> (Val p \<noteq> 0 \<longrightarrow> p \<in># mset (cells (mTiles s)))))"

lemma prodInv_rowBody:
  assumes row: "row \<in> {0,1,2,3}" and I: "prodInv Ps s"
  shows "prodInv (case callMerge dir (at4 (orient dir (mTiles s)) row, nextUUID s) of
                    None \<Rightarrow> Ps | Some e \<Rightarrow> insert (product e) Ps) (rowBody dir s row)"
proof -
  define M where "M = mset (cells (mTiles s))"
  define M' where "M' = mset (cells (mTiles (rowBody dir s row)))"
  from I have fl: "\<And>c. c \<in># M \<Longrightarrow> Cmb c \<Longrightarrow> c \<in> Ps"
    and pc: "\<And>p. p \<in> Ps \<Longrightarrow> Cmb p"
    and pm: "\<And>p. p \<in> Ps \<Longrightarrow> Val p \<noteq> 0 \<Longrightarrow> p \<in># M"
    by (auto simp: prodInv_def M_def)
  from row show ?thesis
  proof (cases rule: rowBody_step_cases[where dir = dir and st = s])
    case none
    with I show ?thesis by simp
  next
    case (merge sr d)
    define Pr where "Pr = \<lparr>Val = addInt (Val d) (Val sr), Cmb = True, UUID = nextUUID s\<rparr>"
    define E where "E = sr\<lparr>Val := 0, UUID := nextUUID s + 1\<rparr>"
    have eq: "M' + {#sr, d#} = M + {#Pr, E#}"
      using merge(8) by (simp add: M_def M'_def Pr_def E_def)
    have mem: "c \<in># M \<or> c = Pr \<or> c = E" if "c \<in># M'" for c
    proof -
      from that have "c \<in># M' + {#sr, d#}" by simp
      then show ?thesis unfolding eq by auto
    qed
    have keep: "p \<in># M'" if "p \<in># M \<or> p = Pr" "Cmb p" for p
    proof -
      from that(1) have "p \<in># M + {#Pr, E#}" by auto
      then have "p \<in># M' + {#sr, d#}" by (simp only: eq)
      moreover have "p \<noteq> sr" "p \<noteq> d" using that(2) merge(5,6) by auto
      ultimately show ?thesis by auto
    qed
    have A: "c \<in> insert Pr Ps" if "c \<in># M'" "Cmb c" for c
      using mem[OF that(1)] that(2) fl[of c] merge(5) by (auto simp: E_def)
    have B: "Cmb p \<and> (Val p \<noteq> 0 \<longrightarrow> p \<in># M')" if "p \<in> insert Pr Ps" for p
    proof (cases "p = Pr")
      case True
      then have "Cmb p" by (simp add: Pr_def)
      with True keep[of p] show ?thesis by simp
    next
      case False
      with that have p: "p \<in> Ps" by simp
      with pc[of p] pm[of p] keep[of p] show ?thesis by auto
    qed
    from A B show ?thesis
      unfolding merge(7) by (simp add: prodInv_def M'_def[symmetric] Pr_def[symmetric])
  next
    case (slide sr d)
    define E where "E = \<lparr>Val = 0, Cmb = False, UUID = nextUUID s\<rparr>"
    have eq: "M' + {#d#} = M + {#E#}"
      using slide(6) by (simp add: M_def M'_def E_def)
    have mem: "c \<in># M \<or> c = E" if "c \<in># M'" for c
    proof -
      from that have "c \<in># M' + {#d#}" by simp
      then show ?thesis unfolding eq by auto
    qed
    have keep: "p \<in># M'" if "p \<in># M" "Val p \<noteq> 0" for p
    proof -
      from that(1) have "p \<in># M + {#E#}" by simp
      then have "p \<in># M' + {#d#}" by (simp only: eq)
      moreover have "p \<noteq> d" using that(2) slide(4) by auto
      ultimately show ?thesis by auto
    qed
    have A: "c \<in> Ps" if "c \<in># M'" "Cmb c" for c
      using mem[OF that(1)] that(2) fl[of c] by (auto simp: E_def)
    have B: "Cmb p \<and> (Val p \<noteq> 0 \<longrightarrow> p \<in># M')" if "p \<in> Ps" for p
      using that pc[of p] pm[of p] keep[of p] by auto
    from A B show ?thesis
      unfolding slide(5) by (simp add: prodInv_def M'_def[symmetric])
  qed
qed

lemma move_products:
  "prodInv (set (map product (mergesOf g dir u)))
     (moveLoop dir \<lparr>mTiles = ClearCmbFlags (Tiles g), moved = False, pointsGained = 0,
                     movedThisTurn = False, nextUUID = u\<rparr>)"
proof -
  define st0 where "st0 = \<lparr>mTiles = ClearCmbFlags (Tiles g), moved = False, pointsGained = 0,
                        movedThisTurn = False, nextUUID = u\<rparr>"
  define f where "f = (\<lambda>Ps (eo :: mergeEvent option).
                         case eo of None \<Rightarrow> Ps | Some e \<Rightarrow> insert (product e) Ps)"
  have "prodInv (foldl f {} (map (callMerge dir) (moveCalls dir st0))) (moveLoop dir st0)"
  proof (rule moveCalls_inv)
    show "prodInv {} st0"
      by (auto simp: prodInv_def st0_def set_cells_ClearCmbFlags clearTile_def)
  next
    fix a s assume "prodInv a s" then show "prodInv a (s\<lparr>movedThisTurn := False\<rparr>)"
      by (simp add: prodInv_def)
  next
    fix a s row assume "row \<in> {0,1,2,3::int}" "prodInv a s"
    then show "prodInv (f a (callMerge dir (at4 (orient dir (mTiles s)) row, nextUUID s)))
                 (rowBody dir s row)"
      unfolding f_def by (rule prodInv_rowBody)
  qed
  moreover have "foldl f {} (map (callMerge dir) (moveCalls dir st0)) =
                 foldl (\<lambda>Ps e. insert (product e) Ps) {} (mergesOf g dir u)"
    unfolding mergesOf_def st0_def[symmetric]
    by (rule foldl_map_filter) (simp_all add: f_def)
  moreover have "foldl (\<lambda>Ps e. insert (product e) Ps) A es = A \<union> set (map product es)"
    for A :: "Tile set" and es :: "mergeEvent list"
    by (induction es arbitrary: A) auto
  then have "foldl (\<lambda>Ps e. insert (product e) Ps) {} (mergesOf g dir u) =
             set (map product (mergesOf g dir u))"
    by simp
  ultimately have "prodInv (set (map product (mergesOf g dir u))) (moveLoop dir st0)"
    by (simp only:)
  then show ?thesis by (simp only: st0_def)
qed

lemma move_accounted:
  assumes "freshIds g u" "distinctIds g"
  shows "accounted (mergesOf g dir u) (Tiles (fst (move g dir u)))"
proof -
  define st0 where "st0 = \<lparr>mTiles = ClearCmbFlags (Tiles g), moved = False, pointsGained = 0,
                        movedThisTurn = False, nextUUID = u\<rparr>"
  define T where "T = mTiles (moveLoop dir st0)"
  have T: "Tiles (fst (move g dir u)) = T"
    by (simp add: move_def Let_def T_def st0_def)
  have P: "prodInv (set (map product (mergesOf g dir u))) (moveLoop dir st0)"
    unfolding st0_def by (rule move_products)
  have "idInv (foldl accStep ({}, {}, True) (map (callMerge dir) (moveCalls dir st0))) (moveLoop dir st0)"
    unfolding st0_def by (rule idInv_moveLoop[OF idInv_initial[OF assms]])
  moreover have "foldl accStep ({}, {}, True) (map (callMerge dir) (moveCalls dir st0)) =
                 foldl accMerge ({}, {}, True) (mergesOf g dir u)"
    unfolding mergesOf_def st0_def[symmetric]
    by (rule foldl_map_filter) (simp_all add: accStep_def)
  ultimately have I: "idInv (foldl accMerge ({}, {}, True) (mergesOf g dir u)) (moveLoop dir st0)"
    by simp
  obtain P' C' ok' where f: "foldl accMerge ({}, {}, True) (mergesOf g dir u) = (P', C', ok')"
    by (metis prod_cases3)
  from foldl_accMerge_taken[OF f]
  have C': "C' = (\<Union>e\<in>set (mergesOf g dir u). {UUID (src e), UUID (dst e)})" by simp
  from I f have nc: "\<And>c. c \<in> set (cells T) \<Longrightarrow> UUID c \<notin> C'"
    by (simp add: idInv_def T_def)
  have a: "UUID c \<noteq> UUID (src e) \<and> UUID c \<noteq> UUID (dst e)"
    if "c \<in> set (cells T)" "e \<in> set (mergesOf g dir u)" for c e
    using nc[OF that(1)] that(2) unfolding C' by auto
  from P have b: "\<And>c. c \<in> set (cells T) \<Longrightarrow> Cmb c \<Longrightarrow> c \<in> set (map product (mergesOf g dir u))"
    and c: "\<And>e. e \<in> set (mergesOf g dir u) \<Longrightarrow> Val (product e) \<noteq> 0 \<Longrightarrow> product e \<in> set (cells T)"
    by (auto simp: prodInv_def T_def)
  from a b c show ?thesis
    unfolding T by (simp add: accounted_def list_all_iff emptyTile_def)
qed

lemma ClearCmbFlags_idem: "ClearCmbFlags (ClearCmbFlags t) = ClearCmbFlags t"
proof -
  have "map4 clearTile (map4 clearTile r) = map4 clearTile r" for r
    by (cases r) (simp add: clearTile_def)
  then show ?thesis by (cases t) (simp add: ClearCmbFlags_def)
qed

lemma Move_flags:
  "Move g dir r u = Move (g\<lparr>Tiles := ClearCmbFlags (Tiles g)\<rparr>) dir r u"
  by (simp add: Move_def move_def ClearCmbFlags_idem)

text \<open>
  Claim C4 (merge once).  Take a grid whose identities are distinct and were generated
  before the call.  Within one \<^verbatim>\<open>move\<close>, a tile that an earlier merge produced, or used
  as its source or its destination, is neither the source nor the destination of a
  later merge; every merge takes two tiles whose flag is clear and flags its product.
  The board that \<^verbatim>\<open>move\<close> returns accounts for these merges: its flagged tiles are their
  products, and the tiles they took are gone.  \<^verbatim>\<open>Move\<close> starts from clear flags: the
  flags of the grid it is given make no difference to what it returns.  It hands on a
  grid whose identities are again distinct and generated, so the same holds for the next
  call, and for any sequence of calls.
\<close>

theorem C4_merge_once:
  assumes "freshIds g u" "distinctIds g"
  shows "mergeOnce (mergesOf g dir u) \<and> list_all flagged (mergesOf g dir u) \<and>
         accounted (mergesOf g dir u) (Tiles (fst (move g dir u))) \<and>
         (\<forall>r. Move g dir r u = Move (g\<lparr>Tiles := ClearCmbFlags (Tiles g)\<rparr>) dir r u) \<and>
         (\<forall>r g' pts r' u'. Move g dir r u = Some (g', pts, r', u') \<longrightarrow>
            freshIds g' u' \<and> distinctIds g')"
  using move_mergeOnce[OF assms, of dir] move_accounted[OF assms, of dir]
    Move_ids[OF assms, of dir] Move_flags[of g dir _ u]
  by blast

text \<open>
  Runs.  On the row 2, 2, 2, 2 a move to the left merges twice, and both products are
  on the board it returns.  On the board that the first move of the example returns,
  with the row 4, 4, 0, 0 whose first tile is flagged, the next move to the left merges
  that tile into an 8, as it does when the flag is clear.
\<close>

theorem C4_merge_once_witness:
  "freshIds boardC9 16 \<and> distinctIds boardC9 \<and>
   length (mergesOf boardC9 DirLeft 16) = 2 \<and>
   mergeOnce (mergesOf boardC9 DirLeft 16) \<and> list_all flagged (mergesOf boardC9 DirLeft 16) \<and>
   accounted (mergesOf boardC9 DirLeft 16) (Tiles (fst (move boardC9 DirLeft 16))) \<and>
   list_all (\<lambda>e. Val (product e) \<noteq> emptyTile) (mergesOf boardC9 DirLeft 16) \<and>
   list_ex Cmb (cells (Tiles (fst (move boardC9 DirLeft 16)))) \<and>
   (\<exists>g' pts r' u'. Move boardC9 DirLeft tapeC3 16 = Some (g', pts, r', u') \<and>
      freshIds g' u' \<and> distinctIds g') \<and>
   freshIds boardC4 19 \<and> distinctIds boardC4 \<and> Cmb (at2 (Tiles boardC4) 0 0) \<and>
   map (\<lambda>e. (Val (src e), Val (dst e), Val (product e))) (mergesOf boardC4 DirLeft 19) =
     [(4, 4, 8)] \<and>
   mergeOnce (mergesOf boardC4 DirLeft 19) \<and>
   Move boardC4 DirLeft tapeC3 19 =
     Move (boardC4\<lparr>Tiles := ClearCmbFlags (Tiles boardC4)\<rparr>) DirLeft tapeC3 19"
proof -
  have f: "freshIds boardC9 16" by code_simp
  have d: "distinctIds boardC9" by code_simp
  have l: "length (mergesOf boardC9 DirLeft 16) = 2" by code_simp
  have n: "list_all (\<lambda>e. Val (product e) \<noteq> emptyTile) (mergesOf boardC9 DirLeft 16)" by code_simp
  have c: "list_ex Cmb (cells (Tiles (fst (move boardC9 DirLeft 16))))" by code_simp
  have "Move boardC9 DirLeft tapeC3 16 \<noteq> None" by code_simp
  then obtain g' pts r' u' where h: "Move boardC9 DirLeft tapeC3 16 = Some (g', pts, r', u')"
    by (cases "Move boardC9 DirLeft tapeC3 16") auto
  note T = C4_merge_once[OF f d, of DirLeft]
  from T h have "freshIds g' u' \<and> distinctIds g'" by blast
  with h have A: "\<exists>g' pts r' u'. Move boardC9 DirLeft tapeC3 16 = Some (g', pts, r', u') \<and>
      freshIds g' u' \<and> distinctIds g'" by blast
  have f2: "freshIds boardC4 19" by code_simp
  have d2: "distinctIds boardC4" by code_simp
  have c2: "Cmb (at2 (Tiles boardC4) 0 0)" by code_simp
  have m2: "map (\<lambda>e. (Val (src e), Val (dst e), Val (product e))) (mergesOf boardC4 DirLeft 19) =
     [(4, 4, 8)]" by code_simp
  note T2 = C4_merge_once[OF f2 d2, of DirLeft]
  from T2 have B: "Move boardC4 DirLeft tapeC3 19 =
     Move (boardC4\<lparr>Tiles := ClearCmbFlags (Tiles boardC4)\<rparr>) DirLeft tapeC3 19"
    "mergeOnce (mergesOf boardC4 DirLeft 19)" by blast+
  from T A B f d l n c f2 d2 c2 m2 show ?thesis by blast
qed

section \<open>Termination of the loops\<close>

text \<open>
  \<open>moveLoopN n\<close> is the outer loop of \<^verbatim>\<open>move\<close> cut off after \<open>n\<close> passes: \<open>None\<close> says that
  the loop was still running then.

  \<open>pairsOf\<close> lists the cells that the successive pairs of \<^verbatim>\<open>rand.Intn\<close> calls of a retry
  loop draw from a tape.  A tape is fair when every cell of the board is among them and
  it holds two results of \<^verbatim>\<open>rand.Float64\<close>.
\<close>

fun moveLoopN :: "nat \<Rightarrow> Direction \<Rightarrow> moveState \<Rightarrow> moveState option" where
  "moveLoopN 0 dir st = None"
| "moveLoopN (Suc n) dir st =
     (let st' = movePass dir st in
      if \<not> movedThisTurn st' then Some st' else moveLoopN n dir st')"

fun pairsOf :: "nat list \<Rightarrow> (int \<times> int) list" where
  "pairsOf (a # b # rest) = (int a mod 4, int b mod 4) # pairsOf rest"
| "pairsOf [a] = []"
| "pairsOf [] = []"

definition allCells :: "(int \<times> int) list" where
  "allCells = concat (map (\<lambda>x. map (\<lambda>y. (x, y)) [0, 1, 2, 3]) [0, 1, 2, 3])"

definition fairTape :: "rnd \<Rightarrow> bool" where
  "fairTape r = (list_all (\<lambda>p. p \<in> set (pairsOf (ints r))) allCells \<and> 2 \<le> length (floats r))"

lemma moveLoopN_enough:
  "potential dir (mTiles st) < n \<Longrightarrow> moveLoopN n dir st = Some (moveLoop dir st)"
proof (induction n arbitrary: st)
  case 0
  then show ?case by simp
next
  case (Suc n)
  show ?case
  proof (cases "movedThisTurn (movePass dir st)")
    case False
    then show ?thesis by (subst moveLoop.simps) (simp add: Let_def)
  next
    case True
    from movePass_pot[OF True] Suc.prems have "potential dir (mTiles (movePass dir st)) < n" by simp
    from Suc.IH[OF this] True show ?thesis by (subst moveLoop.simps) (simp add: Let_def)
  qed
qed

lemma rowPot_le: "rowPot reverse g \<le> 10"
  by (simp add: rowPot_def cellPot_def weight_def)

lemma potential_le: "potential dir t \<le> 40"
proof -
  have "tilesPot rv t' \<le> 40" for rv t'
    unfolding tilesPot_def
    using rowPot_le[of rv "at4 t' 0"] rowPot_le[of rv "at4 t' 1"]
      rowPot_le[of rv "at4 t' 2"] rowPot_le[of rv "at4 t' 3"] by simp
  then show ?thesis by (simp add: potential_def)
qed

lemma moveLoopN_41: "moveLoopN 41 dir st = Some (moveLoop dir st)"
  by (rule moveLoopN_enough) (use potential_le[of dir "mTiles st"] in simp)

lemma cells_allCells: "cells t = map (\<lambda>p. at2 t (fst p) (snd p)) allCells"
proof -
  obtain r0 r1 r2 r3 where t: "t = Arr4 r0 r1 r2 r3" by (cases t)
  obtain a0 a1 a2 a3 where r0: "r0 = Arr4 a0 a1 a2 a3" by (cases r0)
  obtain b0 b1 b2 b3 where r1: "r1 = Arr4 b0 b1 b2 b3" by (cases r1)
  obtain c0 c1 c2 c3 where r2: "r2 = Arr4 c0 c1 c2 c3" by (cases r2)
  obtain d0 d1 d2 d3 where r3: "r3 = Arr4 d0 d1 d2 d3" by (cases r3)
  show ?thesis by (simp add: t r0 r1 r2 r3 cells_def allCells_def at2_def)
qed

text \<open>Once a tile has moved, some cell of the board is empty.\<close>

lemma moveLoop_empty_cell:
  assumes "moved st \<longrightarrow> (\<exists>c\<in>#mset (cells (mTiles st)). Val c = 0)"
  shows "moved (moveLoop dir st) \<longrightarrow> (\<exists>c\<in>#mset (cells (mTiles (moveLoop dir st))). Val c = 0)"
proof (rule moveLoop_inv[where P = "\<lambda>s :: moveState. moved s \<longrightarrow> (\<exists>c\<in>#mset (cells (mTiles s)). Val c = 0)"])
  show "moved st \<longrightarrow> (\<exists>c\<in>#mset (cells (mTiles st)). Val c = 0)" by fact
next
  fix s :: moveState
  assume "moved s \<longrightarrow> (\<exists>c\<in>#mset (cells (mTiles s)). Val c = 0)"
  then show "moved (s\<lparr>movedThisTurn := False\<rparr>) \<longrightarrow>
     (\<exists>c\<in>#mset (cells (mTiles (s\<lparr>movedThisTurn := False\<rparr>))). Val c = 0)" by simp
next
  fix s :: moveState and row assume row: "row \<in> {0,1,2,3::int}"
    and I: "moved s \<longrightarrow> (\<exists>c\<in>#mset (cells (mTiles s)). Val c = 0)"
  from row show "moved (rowBody dir s row) \<longrightarrow> (\<exists>c\<in>#mset (cells (mTiles (rowBody dir s row))). Val c = 0)"
  proof (cases rule: rowBody_step_cases[where dir = dir and st = s])
    case none
    with I show ?thesis by simp
  next
    case (merge sr d)
    define E where "E = sr\<lparr>Val := 0, UUID := nextUUID s + 1\<rparr>"
    have "E \<in># mset (cells (mTiles (rowBody dir s row))) + {#sr, d#}"
      unfolding merge(8) by (simp add: E_def)
    moreover have "Val E = 0" by (simp add: E_def)
    then have "E \<noteq> sr" "E \<noteq> d" using merge(3,4) by auto
    ultimately have "E \<in># mset (cells (mTiles (rowBody dir s row)))" by simp
    moreover have "Val E = 0" by (simp add: E_def)
    ultimately show ?thesis by blast
  next
    case (slide sr d)
    define E where "E = \<lparr>Val = 0, Cmb = False, UUID = nextUUID s\<rparr>"
    show ?thesis
    proof (cases "E = d")
      case False
      have "E \<in># mset (cells (mTiles (rowBody dir s row))) + {#d#}"
        unfolding slide(6) by (simp add: E_def)
      with False have "E \<in># mset (cells (mTiles (rowBody dir s row)))" by simp
      moreover have "Val E = 0" by (simp add: E_def)
      ultimately show ?thesis by blast
    next
      case True
      have "mset (cells (mTiles (rowBody dir s row))) + {#d#} = mset (cells (mTiles s)) + {#d#}"
        unfolding slide(6) using True by (simp add: E_def)
      then have "mset (cells (mTiles (rowBody dir s row))) = mset (cells (mTiles s))" by simp
      with slide(2,4) show ?thesis by metis
    qed
  qed
qed

lemma move_empty_cell:
  assumes "fst (snd (move g dir u))"
  shows "\<exists>p\<in>set allCells. Val (at2 (Tiles (fst (move g dir u))) (fst p) (snd p)) = 0"
proof -
  define st0 where "st0 = \<lparr>mTiles = ClearCmbFlags (Tiles g), moved = False,
                            pointsGained = 0, movedThisTurn = False, nextUUID = u\<rparr>"
  have "moved (moveLoop dir st0) \<longrightarrow> (\<exists>c\<in>#mset (cells (mTiles (moveLoop dir st0))). Val c = 0)"
    by (rule moveLoop_empty_cell) (simp add: st0_def)
  with assms have "\<exists>c\<in>set (cells (mTiles (moveLoop dir st0))). Val c = 0"
    by (simp add: move_def Let_def st0_def)
  then show ?thesis
    by (simp add: move_def Let_def st0_def cells_allCells)
qed

lemma pairsOf_nonempty:
  assumes "p \<in> set (pairsOf ns)"
  obtains a b rest where "ns = a # b # rest" "p = (int a mod 4, int b mod 4) \<or> p \<in> set (pairsOf rest)"
  using assms by (cases ns rule: pairsOf.cases) auto

lemma randIntn_Cons:
  "ints r = a # rest \<Longrightarrow> randIntn 4 r = Some (int a mod 4, r\<lparr>ints := rest\<rparr>)"
  by (simp add: randIntn_def)

lemma spawnRetry_hits:
  assumes "Val (at2 t x y) = 0 \<or> (\<exists>p\<in>set (pairsOf (ints r)). Val (at2 t (fst p) (snd p)) = 0)"
  shows "\<exists>x' y' r'. spawnRetry t x y r = Some (x', y', r') \<and> floats r' = floats r"
  using assms
proof (induction t x y r rule: spawnRetry.induct)
  case (1 t x y r)
  show ?case
  proof (cases "Val (at2 t x y) \<noteq> emptyTile")
    case False
    then show ?thesis by (simp add: spawnRetry.simps[of t x y r])
  next
    case True
    with "1.prems" obtain p where p: "p \<in> set (pairsOf (ints r))" "Val (at2 t (fst p) (snd p)) = 0"
      by (auto simp: emptyTile_def)
    from p(1) obtain a b rest where ns: "ints r = a # b # rest"
      and pp: "p = (int a mod 4, int b mod 4) \<or> p \<in> set (pairsOf rest)"
      by (rule pairsOf_nonempty)
    define r1 where "r1 = r\<lparr>ints := b # rest\<rparr>"
    define r2 where "r2 = r1\<lparr>ints := rest\<rparr>"
    have d1: "randIntn gridWidth r = Some (int a mod 4, r1)"
      using ns by (simp add: randIntn_Cons gridWidth_def GridSize_def r1_def)
    have d2: "randIntn gridHeight r1 = Some (int b mod 4, r2)"
      by (simp add: randIntn_Cons gridHeight_def GridSize_def r1_def r2_def)
    have "Val (at2 t (int a mod 4) (int b mod 4)) = 0 \<or>
          (\<exists>p\<in>set (pairsOf (ints r2)). Val (at2 t (fst p) (snd p)) = 0)"
      using pp p(2) by (auto simp: r2_def r1_def)
    from "1.IH"[OF True d1 refl d2 refl this]
    obtain x' y' r' where "spawnRetry t (int a mod 4) (int b mod 4) r2 = Some (x', y', r')"
      "floats r' = floats r2" by blast
    then show ?thesis
      using True d1 d2 by (simp add: spawnRetry.simps[of t x y r] r2_def r1_def)
  qed
qed

lemma spawnTile_returns:
  assumes "\<exists>p\<in>set (pairsOf (ints r)). Val (at2 (Tiles g) (fst p) (snd p)) = 0" "floats r \<noteq> []"
  shows "spawnTile g r u \<noteq> None"
proof -
  from assms(1) obtain p where p: "p \<in> set (pairsOf (ints r))" "Val (at2 (Tiles g) (fst p) (snd p)) = 0"
    by blast
  from p(1) obtain a b rest where ns: "ints r = a # b # rest"
    and pp: "p = (int a mod 4, int b mod 4) \<or> p \<in> set (pairsOf rest)"
    by (rule pairsOf_nonempty)
  define r1 where "r1 = r\<lparr>ints := b # rest\<rparr>"
  define r2 where "r2 = r1\<lparr>ints := rest\<rparr>"
  have d1: "randIntn gridWidth r = Some (int a mod 4, r1)"
    using ns by (simp add: randIntn_Cons gridWidth_def GridSize_def r1_def)
  have d2: "randIntn gridHeight r1 = Some (int b mod 4, r2)"
    by (simp add: randIntn_Cons gridHeight_def GridSize_def r1_def r2_def)
  have "Val (at2 (Tiles g) (int a mod 4) (int b mod 4)) = 0 \<or>
        (\<exists>p\<in>set (pairsOf (ints r2)). Val (at2 (Tiles g) (fst p) (snd p)) = 0)"
    using pp p(2) by (auto simp: r2_def r1_def)
  from spawnRetry_hits[OF this]
  obtain x' y' r' where s: "spawnRetry (Tiles g) (int a mod 4) (int b mod 4) r2 = Some (x', y', r')"
    and f: "floats r' = floats r2" by blast
  from f assms(2) have "floats r' \<noteq> []" by (simp add: r2_def r1_def)
  then have "newTileVal r' \<noteq> None"
    by (auto simp: newTileVal_def randFloat64_def split: list.splits)
  then show ?thesis
    using d1 d2 s by (auto simp: spawnTile_def Let_def split: option.splits)
qed

lemma Move_returns:
  assumes "fairTape r"
  shows "Move g dir r u \<noteq> None"
proof -
  obtain gm m p um where mv: "move g dir u = (gm, m, p, um)" by (metis prod_cases4)
  show ?thesis
  proof (cases m)
    case False
    with mv show ?thesis by (simp add: Move_def)
  next
    case True
    with mv move_empty_cell[of g dir u]
    obtain c where c: "c \<in> set allCells" "Val (at2 (Tiles gm) (fst c) (snd c)) = 0" by auto
    from assms c(1) have "c \<in> set (pairsOf (ints r))" by (auto simp: fairTape_def list_all_iff)
    with c(2) have "\<exists>p\<in>set (pairsOf (ints r)). Val (at2 (Tiles gm) (fst p) (snd p)) = 0" by blast
    moreover from assms have "floats r \<noteq> []" by (auto simp: fairTape_def)
    ultimately have "spawnTile gm r um \<noteq> None" by (rule spawnTile_returns)
    with mv True show ?thesis by (auto simp: Move_def)
  qed
qed

lemma resetRetry_hits:
  assumes "tile2 \<noteq> tile1 \<or> (\<exists>p\<in>set (pairsOf (ints r)). p \<noteq> tile1)"
  shows "\<exists>t2 r'. resetRetry tile1 tile2 r = Some (t2, r') \<and> floats r' = floats r"
  using assms
proof (induction tile1 tile2 r rule: resetRetry.induct)
  case (1 tile1 tile2 r)
  show ?case
  proof (cases "tile1 = tile2")
    case False
    then show ?thesis by (simp add: resetRetry.simps[of tile1 tile2 r])
  next
    case True
    with "1.prems" obtain p where p: "p \<in> set (pairsOf (ints r))" "p \<noteq> tile1"
      by auto
    from p(1) obtain a b rest where ns: "ints r = a # b # rest"
      and pp: "p = (int a mod 4, int b mod 4) \<or> p \<in> set (pairsOf rest)"
      by (rule pairsOf_nonempty)
    define r1 where "r1 = r\<lparr>ints := b # rest\<rparr>"
    define r2 where "r2 = r1\<lparr>ints := rest\<rparr>"
    have d1: "randIntn gridWidth r = Some (int a mod 4, r1)"
      using ns by (simp add: randIntn_Cons gridWidth_def GridSize_def r1_def)
    have d2: "randIntn gridHeight r1 = Some (int b mod 4, r2)"
      by (simp add: randIntn_Cons gridHeight_def GridSize_def r1_def r2_def)
    have "(int a mod 4, int b mod 4) \<noteq> tile1 \<or> (\<exists>p\<in>set (pairsOf (ints r2)). p \<noteq> tile1)"
      using pp p(2) by (auto simp: r2_def r1_def)
    from "1.IH"[OF True d1 refl d2 refl this]
    obtain t2 r' where "resetRetry tile1 (int a mod 4, int b mod 4) r2 = Some (t2, r')"
      "floats r' = floats r2" by blast
    then show ?thesis
      using True d1 d2 by (subst resetRetry.simps) (simp add: r2_def r1_def)
  qed
qed

lemma Reset_returns:
  assumes "fairTape r"
  shows "Reset g r u \<noteq> None"
proof -
  have c0: "(0, 0) \<in> set (pairsOf (ints r))" and c1: "(0, 1) \<in> set (pairsOf (ints r))"
    using assms by (simp_all add: fairTape_def allCells_def)
  from c0 obtain a b rest where ns: "ints r = a # b # rest"
    by (rule pairsOf_nonempty)
  define p1 where "p1 = (int a mod 4, int b mod 4)"
  have "\<exists>q\<in>set (pairsOf rest). q \<noteq> p1"
  proof (cases "p1 = (0, 0)")
    case True
    with c1 ns have "(0, 1) \<in> set (pairsOf rest)" by (auto simp: p1_def)
    with True show ?thesis by (intro bexI[of _ "(0, 1)"]) auto
  next
    case False
    with c0 ns have "(0, 0) \<in> set (pairsOf rest)" by (auto simp: p1_def)
    with False show ?thesis by (intro bexI[of _ "(0, 0)"]) auto
  qed
  then obtain q where q: "q \<in> set (pairsOf rest)" "q \<noteq> p1" by blast
  from q(1) obtain c d rest' where ns': "rest = c # d # rest'"
    and qq: "q = (int c mod 4, int d mod 4) \<or> q \<in> set (pairsOf rest')"
    by (rule pairsOf_nonempty)
  define r1 where "r1 = r\<lparr>ints := b # rest\<rparr>"
  define r2 where "r2 = r1\<lparr>ints := rest\<rparr>"
  define r3 where "r3 = r2\<lparr>ints := d # rest'\<rparr>"
  define r4 where "r4 = r3\<lparr>ints := rest'\<rparr>"
  have d1: "randIntn gridWidth r = Some (int a mod 4, r1)"
    using ns by (simp add: randIntn_Cons gridWidth_def GridSize_def r1_def)
  have d2: "randIntn gridHeight r1 = Some (int b mod 4, r2)"
    by (simp add: randIntn_Cons gridHeight_def GridSize_def r1_def r2_def)
  have d3: "randIntn gridWidth r2 = Some (int c mod 4, r3)"
    using ns' by (simp add: randIntn_Cons gridWidth_def GridSize_def r1_def r2_def r3_def)
  have d4: "randIntn gridHeight r3 = Some (int d mod 4, r4)"
    by (simp add: randIntn_Cons gridHeight_def GridSize_def r3_def r4_def)
  have "(int c mod 4, int d mod 4) \<noteq> p1 \<or> (\<exists>p\<in>set (pairsOf (ints r4)). p \<noteq> p1)"
    using qq q(2) by (auto simp: r4_def r3_def)
  from resetRetry_hits[OF this]
  obtain t2 r5 where rr: "resetRetry p1 (int c mod 4, int d mod 4) r4 = Some (t2, r5)"
    and f: "floats r5 = floats r4" by blast
  from assms have "2 \<le> length (floats r)" by (simp add: fairTape_def)
  then obtain f1 f2 fs where fl: "floats r = f1 # f2 # fs"
    by (cases "floats r"; cases "tl (floats r)") auto
  then have f5: "floats r5 = f1 # f2 # fs"
    using f by (simp add: r4_def r3_def r2_def r1_def)
  obtain v1 where n1: "newTileVal r5 = Some (v1, r5\<lparr>floats := f2 # fs\<rparr>)"
    using f5 by (simp add: newTileVal_def randFloat64_def)
  obtain v2 where n2: "newTileVal (r5\<lparr>floats := f2 # fs\<rparr>) = Some (v2, r5\<lparr>floats := fs\<rparr>)"
    by (simp add: newTileVal_def randFloat64_def)
  show ?thesis
    using d1 d2 d3 d4 rr n1 n2
    by (simp add: Reset_def Let_def p1_def split: prod.splits)
qed

text \<open>The retry loop of \<^verbatim>\<open>spawnTile\<close> does not return before an empty cell is drawn.\<close>

lemma spawnRetry_no_hit:
  assumes "Val (at2 t x y) \<noteq> 0" "\<forall>p\<in>set (pairsOf (ints r)). Val (at2 t (fst p) (snd p)) \<noteq> 0"
  shows "spawnRetry t x y r = None"
  using assms
proof (induction t x y r rule: spawnRetry.induct)
  case (1 t x y r)
  have ne: "Val (at2 t x y) \<noteq> emptyTile" using "1.prems"(1) by (simp add: emptyTile_def)
  show ?case
  proof (cases "ints r")
    case Nil
    with ne show ?thesis by (simp add: spawnRetry.simps[of t x y r] randIntn_def)
  next
    case (Cons a rest)
    note A = this
    define r1 where "r1 = r\<lparr>ints := rest\<rparr>"
    have d1: "randIntn gridWidth r = Some (int a mod 4, r1)"
      using A by (simp add: randIntn_Cons gridWidth_def GridSize_def r1_def)
    show ?thesis
    proof (cases rest)
      case Nil
      with ne d1 show ?thesis
        by (simp add: spawnRetry.simps[of t x y r] randIntn_def r1_def)
    next
      case (Cons b rest')
      define r2 where "r2 = r1\<lparr>ints := rest'\<rparr>"
      have d2: "randIntn gridHeight r1 = Some (int b mod 4, r2)"
        using Cons by (simp add: randIntn_Cons gridHeight_def GridSize_def r1_def r2_def)
      have "Val (at2 t (int a mod 4) (int b mod 4)) \<noteq> 0"
        "\<forall>p\<in>set (pairsOf (ints r2)). Val (at2 t (fst p) (snd p)) \<noteq> 0"
        using "1.prems"(2) A Cons by (auto simp: r2_def r1_def)
      from "1.IH"[OF ne d1 refl d2 refl this] ne d1 d2 show ?thesis
        by (simp add: spawnRetry.simps[of t x y r])
    qed
  qed
qed

text \<open>
  Claim C10 (termination).  The outer loop of \<^verbatim>\<open>move\<close> ends within 41 passes from any
  state, since every pass that goes on lowers the potential of the board, which is at
  most 40; after a \<^verbatim>\<open>move\<close> that moved a tile some cell is empty; and on a random source
  that draws every cell of the board (and two values), \<^verbatim>\<open>Move\<close> and \<^verbatim>\<open>Reset\<close> return,
  for every grid and direction.
\<close>

theorem C10_termination:
  assumes "fairTape r"
  shows "moveLoopN 41 dir st = Some (moveLoop dir st) \<and>
         (movedThisTurn (movePass dir st) \<longrightarrow>
            potential dir (mTiles (movePass dir st)) < potential dir (mTiles st)) \<and>
         (fst (snd (move g dir u)) \<longrightarrow>
            (\<exists>p\<in>set allCells. Val (at2 (Tiles (fst (move g dir u))) (fst p) (snd p)) = emptyTile)) \<and>
         Move g dir r u \<noteq> None \<and> Reset g r u \<noteq> None"
  using moveLoopN_41[of dir st] movePass_pot[of dir st] move_empty_cell[of g dir u]
    Move_returns[OF assms, of g dir u] Reset_returns[OF assms, of g u]
  by (simp add: emptyTile_def)

text \<open>
  A fair tape: the sixteen cells row by row, then the values 2 and 4; and the state in
  which the loop of \<^verbatim>\<open>move\<close> starts on the board of the example.
\<close>

definition stateC10 :: moveState where
  "stateC10 = \<lparr>mTiles = Tiles boardC5, moved = False, pointsGained = 0,
               movedThisTurn = False, nextUUID = 16\<rparr>"

definition tapeC10 :: rnd where
  "tapeC10 = \<lparr>ints = [0, 0, 0, 1, 0, 2, 0, 3, 1, 0, 1, 1, 1, 2, 1, 3,
                       2, 0, 2, 1, 2, 2, 2, 3, 3, 0, 3, 1, 3, 2, 3, 3],
              floats = [1 / 2, 19 / 20]\<rparr>"

theorem C10_termination_witness:
  "fairTape tapeC10 \<and>
   moveLoopN 41 DirLeft stateC10 = Some (moveLoop DirLeft stateC10) \<and>
   movedThisTurn (movePass DirLeft stateC10) \<and>
   potential DirLeft (mTiles (movePass DirLeft stateC10)) < potential DirLeft (mTiles stateC10) \<and>
   fst (snd (move boardC5 DirLeft 16)) \<and>
   (\<exists>p\<in>set allCells. Val (at2 (Tiles (fst (move boardC5 DirLeft 16))) (fst p) (snd p)) = emptyTile) \<and>
   Move boardC5 DirLeft tapeC10 16 \<noteq> None \<and> Reset boardC5 tapeC10 16 \<noteq> None"
proof -
  have f: "fairTape tapeC10" by code_simp
  have m1: "movedThisTurn (movePass DirLeft stateC10)" by code_simp
  have m2: "fst (snd (move boardC5 DirLeft 16))" by code_simp
  from C10_termination[OF f, of DirLeft stateC10 boardC5 16] f m1 m2
  show ?thesis by simp
qed

section \<open>The board after \<^verbatim>\<open>Reset\<close>\<close>

lemma at2_upd2:
  assumes "x \<in> {0,1,2,3}" "y \<in> {0,1,2,3}" "i \<in> {0,1,2,3}" "j \<in> {0,1,2,3}"
  shows "at2 (upd2 t x y c) i j = (if i = x \<and> j = y then c else at2 t i j)"
proof (cases "i = x")
  case True
  show ?thesis
  proof (cases "j = y")
    case True
    with \<open>i = x\<close> assms show ?thesis by (simp add: at2_def upd2_def at4_upd4_same)
  next
    case False
    with \<open>i = x\<close> assms show ?thesis by (simp add: at2_def upd2_def at4_upd4_same at4_upd4_other)
  qed
next
  case False
  with assms show ?thesis by (simp add: at2_def upd2_def at4_upd4_other)
qed

lemma foldl_count:
  "foldl (\<lambda>n c. if P c then n + 1 else n) k cs = k + int (length (filter P cs))"
  by (induction cs arbitrary: k) auto

lemma allCells_range: "p \<in> set allCells \<longleftrightarrow> fst p \<in> {0,1,2,3} \<and> snd p \<in> {0,1,2,3}"
  by (cases p) (auto simp: allCells_def)

lemma distinct_allCells: "distinct allCells"
  by (simp add: allCells_def)

lemma NewTiles_empty:
  assumes "i \<in> {0,1,2,3}" "j \<in> {0,1,2,3}"
  shows "Val (at2 (fst (NewTiles u)) i j) = 0"
  using assms by (auto simp: NewTiles_def at2_def Let_def)

lemma resetRetry_result:
  assumes "resetRetry tile1 tile2 r = Some (t2, r')" "tile2 \<in> set allCells"
  shows "t2 \<noteq> tile1 \<and> t2 \<in> set allCells"
  using assms
proof (induction tile1 tile2 r rule: resetRetry.induct)
  case (1 tile1 tile2 r)
  show ?case
  proof (cases "tile1 = tile2")
    case False
    with "1.prems" show ?thesis by (simp add: resetRetry.simps[of tile1 tile2 r])
  next
    case True
    with "1.prems"(1) obtain x1 r1 y1 r2 where
      d: "randIntn gridWidth r = Some (x1, r1)" "randIntn gridHeight r1 = Some (y1, r2)"
      and s: "resetRetry tile1 (x1, y1) r2 = Some (t2, r')"
      by (subst (asm) resetRetry.simps) (auto split: option.splits)
    from d have "(x1, y1) \<in> set allCells"
      unfolding allCells_range
      by (auto simp: gridWidth_def gridHeight_def GridSize_def dest: randIntn_range)
    with "1.IH"[OF True d(1) refl d(2) refl s] show ?thesis by simp
  qed
qed

text \<open>
  What \<^verbatim>\<open>Reset\<close> leaves on the board when it returns, whatever was drawn: two distinct
  cells hold a 2 or a 4, the values that \<^verbatim>\<open>newTileVal\<close> made of two draws, and every
  other cell is empty.
\<close>

lemma Reset_two_seeds:
  assumes "Reset g r u = Some (g', r', u')"
  shows "\<exists>c1 c2 v1 v2. c1 \<in> set allCells \<and> c2 \<in> set allCells \<and> c1 \<noteq> c2 \<and>
           v1 \<in> {2, 4} \<and> v2 \<in> {2, 4} \<and>
           (\<forall>p\<in>set allCells. Val (at2 (Tiles g') (fst p) (snd p)) =
               (if p = c2 then v2 else if p = c1 then v1 else 0)) \<and>
           NumTiles g' = 2"
proof -
  define t0 where "t0 = fst (NewTiles u)"
  from assms obtain x1 r1 y1 r2 x2 r3 y2 r4 tile2 r5 v1 r6 v2 where
    d: "randIntn gridWidth r = Some (x1, r1)" "randIntn gridHeight r1 = Some (y1, r2)"
       "randIntn gridWidth r2 = Some (x2, r3)" "randIntn gridHeight r3 = Some (y2, r4)"
    and rr: "resetRetry (x1, y1) (x2, y2) r4 = Some (tile2, r5)"
    and n: "newTileVal r5 = Some (v1, r6)" "newTileVal r6 = Some (v2, r')"
    and g': "Tiles g' = upd2 (upd2 t0 x1 y1 ((at2 t0 x1 y1)\<lparr>Val := v1\<rparr>)) (fst tile2) (snd tile2)
               ((at2 (upd2 t0 x1 y1 ((at2 t0 x1 y1)\<lparr>Val := v1\<rparr>)) (fst tile2) (snd tile2))\<lparr>Val := v2\<rparr>)"
    by (auto simp: Reset_def Let_def t0_def split: prod.splits option.splits)
  define c1 where "c1 = (x1, y1)"
  have c1: "c1 \<in> set allCells" and p2: "(x2, y2) \<in> set allCells"
    using d unfolding allCells_range c1_def
    by (auto simp: gridWidth_def gridHeight_def GridSize_def dest: randIntn_range)
  from resetRetry_result[OF rr p2] have c2: "tile2 \<in> set allCells" "tile2 \<noteq> c1"
    by (simp_all add: c1_def)
  from n have v: "v1 \<in> {2, 4}" "v2 \<in> {2, 4}" by (auto dest: newTileVal_range)
  have val: "Val (at2 (Tiles g') (fst p) (snd p)) =
               (if p = tile2 then v2 else if p = c1 then v1 else 0)" if "p \<in> set allCells" for p
  proof -
    from that c1 c2 have r: "fst p \<in> {0,1,2,3}" "snd p \<in> {0,1,2,3}" "x1 \<in> {0,1,2,3}" "y1 \<in> {0,1,2,3}"
      "fst tile2 \<in> {0,1,2,3}" "snd tile2 \<in> {0,1,2,3}"
      by (simp_all add: allCells_range c1_def)
    have e: "Val (at2 t0 (fst p) (snd p)) = 0" unfolding t0_def by (rule NewTiles_empty[OF r(1,2)])
    show ?thesis
      unfolding g' using r e
      by (cases p; cases tile2) (auto simp add: at2_upd2 c1_def)
  qed
  have "NumTiles g' = int (length (filter (\<lambda>c. Val c \<noteq> 0) (cells (Tiles g'))))"
    by (simp add: NumTiles_def foldl_count)
  also have "length (filter (\<lambda>c. Val c \<noteq> 0) (cells (Tiles g'))) =
             length (filter (\<lambda>p. Val (at2 (Tiles g') (fst p) (snd p)) \<noteq> 0) allCells)"
    by (simp add: cells_allCells filter_map comp_def)
  also have "filter (\<lambda>p. Val (at2 (Tiles g') (fst p) (snd p)) \<noteq> 0) allCells =
             filter (\<lambda>p. p = tile2 \<or> p = c1) allCells"
    by (rule filter_cong[OF refl]) (use val v in auto)
  also have "length (filter (\<lambda>p. p = tile2 \<or> p = c1) allCells) =
             card ({p. p = tile2 \<or> p = c1} \<inter> set allCells)"
    by (rule distinct_length_filter[OF distinct_allCells])
  also have "{p. p = tile2 \<or> p = c1} \<inter> set allCells = {tile2, c1}"
    using c1 c2 by auto
  also have "card {tile2, c1} = 2" using c2 by simp
  finally have "NumTiles g' = 2" by simp
  with c1 c2 v val show ?thesis by blast
qed

section \<open>The multiplayer screen: handling the opponent's data\<close>

text \<open>
  The handlers of \<^verbatim>\<open>MultiplayerScreen\<close>.  The screen's widgets are left out; its state is
  the local game (\<^verbatim>\<open>backend\<close>), the mirror of the opponent's game
  (\<^verbatim>\<open>opponentBackend\<close>) and the server or the client it talks through.  A game snapshot is
  a value of any type \<open>'g\<close>: the handlers only copy it.
\<close>

text \<open>
  Modelled from the spec: the package \<^verbatim>\<open>comms\<close> (message types, events, parsers and
  serialisers) is not among the sources.  A message is a type tag and a content; the tags
  are those of the four kinds of message, and any other tag a peer may send; an event is
  \<^verbatim>\<open>ScreenLoaded\<close>, \<^verbatim>\<open>HostStartGame\<close>, or any other value.  The parsers and serialisers
  are parameters of the model, gathered in the record \<open>comms\<close>: each returns an error
  or a result.
\<close>

type_synonym bytes = string

datatype messageType =
  TypePlayerData | TypeGameData | TypeEventData | TypeRequestData | TypeOther string

datatype event = EventScreenLoaded | EventHostStartGame | EventOther string

record message =
  Type :: messageType
  Content :: bytes

record playerData =
  Version :: string
  Username :: string

text \<open>
  An error is one that a collaborator returned, or one made by \<^verbatim>\<open>fmt.Errorf\<close>: a text
  that wraps an error (\<^verbatim>\<open>%w\<close>), the text about an unsupported message type, or the
  text about incompatible versions (the peer's, the local one).
\<close>

datatype error =
  External string
| Errorf string error
| UnsupportedMessageType messageType
| IncompatibleVersions string string

record 'g comms =
  ParseMessage :: "bytes \<Rightarrow> error + message"
  ParseGameData :: "bytes \<Rightarrow> error + 'g"
  ParseEventData :: "bytes \<Rightarrow> error + event"
  ParseRequestData :: "bytes \<Rightarrow> error + messageType"
  ParsePlayerData :: "bytes \<Rightarrow> error + playerData"
  SerialiseGameData :: "'g \<Rightarrow> error + bytes"
  SerialiseEventData :: "event \<Rightarrow> error + bytes"
  SerialiseRequestData :: "messageType \<Rightarrow> error + bytes"

text \<open>
  The transport (\<^verbatim>\<open>servesyouright\<close>) is an external library.  A connection is modelled
  by the messages written to it so far, each with the peer it went to, and by the number
  of writes it will still accept: a write to a connection that accepts none fails with
  an error and writes nothing.  A server knows the identifiers of its clients; the peer
  of a client is the host, written as peer 0.
\<close>

record transport =
  written :: "(nat \<times> bytes) list"
  accepts :: nat

record server =
  clientIDs :: "nat list"
  conn :: transport

record 'g MultiplayerScreen =
  backend :: 'g
  opponentBackend :: 'g
  server :: "server option"
  client :: "transport option"

definition transportWrite :: "transport \<Rightarrow> nat \<Rightarrow> bytes \<Rightarrow> error + transport" where
  "transportWrite t peer b =
     (if accepts t = 0 then Inl (External ''write failed'')
      else Inr \<lparr>written = written t @ [(peer, b)], accepts = accepts t - 1\<rparr>)"

text \<open>
  What a handler does: it returns, with the screen as it left it and the error if any,
  or it panics.
\<close>

datatype 'a result = Return 'a "error option" | Panic

text \<open>The loop of \<^verbatim>\<open>sendToOpponent\<close> over the client identifiers: it returns at the first
  write that fails.\<close>

fun writeToClients :: "transport \<Rightarrow> nat list \<Rightarrow> bytes \<Rightarrow> transport \<times> error option" where
  "writeToClients t [] b = (t, None)"
| "writeToClients t (cid # ids) b =
     (case transportWrite t cid b of
        Inl err \<Rightarrow> (t, Some (Errorf ''failed to send message to server'' err))
      | Inr t' \<Rightarrow> writeToClients t' ids b)"

definition sendToOpponent :: "'g MultiplayerScreen \<Rightarrow> bytes \<Rightarrow> 'g MultiplayerScreen result" where
  "sendToOpponent s b =
     (case server s of
        Some srv \<Rightarrow>
          (case writeToClients (conn srv) (clientIDs srv) b of
             (t, err) \<Rightarrow> Return (s\<lparr>server := Some (srv\<lparr>conn := t\<rparr>)\<rparr>) err)
      | None \<Rightarrow>
          (case client s of
             None \<Rightarrow> Panic
           | Some c \<Rightarrow>
               (case transportWrite c 0 b of
                  Inl err \<Rightarrow> Return s (Some (Errorf ''failed to send message to client'' err))
                | Inr c' \<Rightarrow> Return (s\<lparr>client := Some c'\<rparr>) None)))"

definition sendGameData :: "'g comms \<Rightarrow> 'g MultiplayerScreen \<Rightarrow> 'g MultiplayerScreen result" where
  "sendGameData c s =
     (case SerialiseGameData c (backend s) of
        Inl err \<Rightarrow> Return s (Some (Errorf ''failed to serialise game data'' err))
      | Inr msg \<Rightarrow> sendToOpponent s msg)"

definition handleGameData :: "'g MultiplayerScreen \<Rightarrow> 'g \<Rightarrow> 'g MultiplayerScreen result" where
  "handleGameData s game = Return (s\<lparr>opponentBackend := game\<rparr>) None"

definition sendScreenLoadedEvent :: "'g comms \<Rightarrow> 'g MultiplayerScreen \<Rightarrow> 'g MultiplayerScreen result" where
  "sendScreenLoadedEvent c s =
     (case SerialiseEventData c EventScreenLoaded of
        Inl err \<Rightarrow> Return s (Some (Errorf ''failed to serialise event data'' err))
      | Inr msg \<Rightarrow> sendToOpponent s msg)"

definition requestOpponentGameData :: "'g comms \<Rightarrow> 'g MultiplayerScreen \<Rightarrow> 'g MultiplayerScreen result" where
  "requestOpponentGameData c s =
     (case SerialiseRequestData c TypeGameData of
        Inl err \<Rightarrow> Return s (Some (Errorf ''failed to serialise request data'' err))
      | Inr msg \<Rightarrow>
          (case sendToOpponent s msg of
             Panic \<Rightarrow> Panic
           | Return s' (Some err) \<Rightarrow> Return s' (Some (Errorf ''failed to send data to opponent'' err))
           | Return s' None \<Rightarrow> Return s' None))"

definition handleEventData :: "'g comms \<Rightarrow> 'g MultiplayerScreen \<Rightarrow> event \<Rightarrow> 'g MultiplayerScreen result" where
  "handleEventData c s ev =
     (case ev of
        EventScreenLoaded \<Rightarrow>
          (case sendGameData c s of
             Panic \<Rightarrow> Panic
           | Return s1 (Some err) \<Rightarrow> Return s1 (Some (Errorf ''failed to send game data'' err))
           | Return s1 None \<Rightarrow>
               (case requestOpponentGameData c s1 of
                  Panic \<Rightarrow> Panic
                | Return s2 (Some err) \<Rightarrow>
                    Return s2 (Some (Errorf ''failed to request opponent's game data'' err))
                | Return s2 None \<Rightarrow> Return s2 None))
      | _ \<Rightarrow> Return s None)"

definition handleRequest :: "'g comms \<Rightarrow> 'g MultiplayerScreen \<Rightarrow> messageType \<Rightarrow> 'g MultiplayerScreen result" where
  "handleRequest c s req =
     (case req of
        TypeGameData \<Rightarrow>
          (case sendGameData c s of
             Panic \<Rightarrow> Panic
           | Return s1 (Some err) \<Rightarrow> Return s1 (Some (Errorf ''failed to send game data'' err))
           | Return s1 None \<Rightarrow> Return s1 None)
      | _ \<Rightarrow> Return s None)"

definition handleOpponentData :: "'g comms \<Rightarrow> 'g MultiplayerScreen \<Rightarrow> bytes \<Rightarrow> 'g MultiplayerScreen result" where
  "handleOpponentData c s data =
     (case ParseMessage c data of
        Inl err \<Rightarrow> Return s (Some (Errorf ''failed to parse message'' err))
      | Inr msg \<Rightarrow>
          (case Type msg of
             TypeGameData \<Rightarrow>
               (case ParseGameData c (Content msg) of
                  Inl err \<Rightarrow> Return s (Some (Errorf ''failed to parse game data'' err))
                | Inr gameData \<Rightarrow> handleGameData s gameData)
           | TypeEventData \<Rightarrow>
               (case ParseEventData c (Content msg) of
                  Inl err \<Rightarrow> Return s (Some (Errorf ''failed to parse event data'' err))
                | Inr eventData \<Rightarrow> handleEventData c s eventData)
           | TypeRequestData \<Rightarrow>
               (case ParseRequestData c (Content msg) of
                  Inl err \<Rightarrow> Return s (Some (Errorf ''failed to parse request data'' err))
                | Inr requestData \<Rightarrow> handleRequest c s requestData)
           | _ \<Rightarrow> Return s (Some (UnsupportedMessageType (Type msg)))))"

text \<open>
  The callback that \<^verbatim>\<open>Enter\<close> registers with the server or the client: an error of
  the handler is logged, and the callback returns.  The log is the list of the lines
  printed.
\<close>

definition opponentDataCallback ::
  "'g comms \<Rightarrow> string \<Rightarrow> 'g MultiplayerScreen \<times> (string \<times> error) list \<Rightarrow> bytes \<Rightarrow>
   ('g MultiplayerScreen \<times> (string \<times> error) list) option" where
  "opponentDataCallback c text sl b =
     (case handleOpponentData c (fst sl) b of
        Panic \<Rightarrow> None
      | Return s' None \<Rightarrow> Some (s', snd sl)
      | Return s' (Some err) \<Rightarrow> Some (s', snd sl @ [(text, err)]))"

subsection \<open>The join screen: handling the server's data\<close>

text \<open>
  The handlers of \<^verbatim>\<open>MultiplayerJoinScreen\<close>.  Of the screen, the model keeps the name
  of the opponent, the text of the status line, and the channel \<^verbatim>\<open>hostIsReady\<close>; the
  goroutine that animates the status line is left out.  The constant
  \<^verbatim>\<open>config.Version\<close> is not among the sources: it is the parameter \<open>version\<close>.

  \<^verbatim>\<open>hostIsReady\<close> is made without a buffer, so a send on it returns only when another
  goroutine takes the value.  The channel is modelled by the number of receive
  operations that other goroutines perform on it and by the values they have taken: a
  send hands its value to a receiver when one is left and has no result otherwise
  (\<open>None\<close>: the sending goroutine stays blocked).  A handler is \<open>None\<close> when it does not
  return.
\<close>

record chan =
  receivers :: nat
  taken :: "bool list"

definition chanSend :: "chan \<Rightarrow> bool \<Rightarrow> chan option" where
  "chanSend ch v =
     (if receivers ch = 0 then None
      else Some (ch\<lparr>receivers := receivers ch - 1, taken := taken ch @ [v]\<rparr>))"

record MultiplayerJoinScreen =
  opponentName :: string
  opponentStatus :: string
  hostIsReady :: chan

definition joinHandleEventData ::
  "MultiplayerJoinScreen \<Rightarrow> event \<Rightarrow> (MultiplayerJoinScreen \<times> error option) option" where
  "joinHandleEventData s ev =
     (if ev = EventHostStartGame then
        (case chanSend (hostIsReady s) True of
           None \<Rightarrow> None
         | Some ch \<Rightarrow> Some (s\<lparr>hostIsReady := ch\<rparr>, None))
      else Some (s, None))"

definition handlePlayerData ::
  "string \<Rightarrow> MultiplayerJoinScreen \<Rightarrow> playerData \<Rightarrow> MultiplayerJoinScreen \<times> error option" where
  "handlePlayerData version s pd =
     (if Version pd \<noteq> version then (s, Some (IncompatibleVersions (Version pd) version))
      else
        let s1 = s\<lparr>opponentName := Username pd\<rparr>;
            msg = ''Waiting for \"'' @ opponentName s1 @ ''\" to start the game''
        in (s1\<lparr>opponentStatus := msg\<rparr>, None))"

definition handleServerData ::
  "'g comms \<Rightarrow> string \<Rightarrow> MultiplayerJoinScreen \<Rightarrow> bytes \<Rightarrow>
   (MultiplayerJoinScreen \<times> error option) option" where
  "handleServerData c version s data =
     (case ParseMessage c data of
        Inl err \<Rightarrow> Some (s, Some (Errorf ''failed to parse message'' err))
      | Inr msg \<Rightarrow>
          (case Type msg of
             TypeEventData \<Rightarrow>
               (case ParseEventData c (Content msg) of
                  Inl err \<Rightarrow> Some (s, Some (Errorf ''failed to parse event data'' err))
                | Inr eventData \<Rightarrow> joinHandleEventData s eventData)
           | TypePlayerData \<Rightarrow>
               (case ParsePlayerData c (Content msg) of
                  Inl err \<Rightarrow> Some (s, Some (Errorf ''failed to parse player data'' err))
                | Inr pd \<Rightarrow> Some (handlePlayerData version s pd))
           | _ \<Rightarrow> Some (s, Some (UnsupportedMessageType (Type msg)))))"

text \<open>
  A payload is undecodable for the join screen when it does not parse as a message, when
  its type is neither \<^verbatim>\<open>EventData\<close> nor \<^verbatim>\<open>PlayerData\<close>, or when its content does not parse
  for its type.
\<close>

definition undecodableJoin :: "'g comms \<Rightarrow> bytes \<Rightarrow> bool" where
  "undecodableJoin c data =
     (case ParseMessage c data of
        Inl err \<Rightarrow> True
      | Inr msg \<Rightarrow>
          (case Type msg of
             TypeEventData \<Rightarrow> isl (ParseEventData c (Content msg))
           | TypePlayerData \<Rightarrow> isl (ParsePlayerData c (Content msg))
           | _ \<Rightarrow> True))"

subsection \<open>What is written, to whom; payloads that do not decode\<close>



definition knownTypes :: "messageType set" where
  "knownTypes = {TypeGameData, TypeEventData, TypeRequestData}"

definition contentFails :: "'g comms \<Rightarrow> message \<Rightarrow> bool" where
  "contentFails c msg =
     (case Type msg of
        TypeGameData \<Rightarrow> isl (ParseGameData c (Content msg))
      | TypeEventData \<Rightarrow> isl (ParseEventData c (Content msg))
      | TypeRequestData \<Rightarrow> isl (ParseRequestData c (Content msg))
      | _ \<Rightarrow> False)"

definition undecodable :: "'g comms \<Rightarrow> bytes \<Rightarrow> bool" where
  "undecodable c data =
     (case ParseMessage c data of
        Inl err \<Rightarrow> True
      | Inr msg \<Rightarrow> Type msg \<notin> knownTypes \<or> contentFails c msg)"

definition testComms :: "string comms" where
  "testComms = \<lparr>
     ParseMessage = (\<lambda>b. case b of
        [] \<Rightarrow> Inl (External ''empty message'')
      | t # rest \<Rightarrow> Inr \<lparr>Type = (if t = CHR ''G'' then TypeGameData
                                  else if t = CHR ''E'' then TypeEventData
                                  else if t = CHR ''R'' then TypeRequestData
                                  else if t = CHR ''P'' then TypePlayerData
                                  else TypeOther [t]),
                          Content = rest\<rparr>),
     ParseGameData = (\<lambda>b. Inr b),
     ParseEventData = (\<lambda>b. if b = ''loaded'' then Inr EventScreenLoaded
                            else if b = ''start'' then Inr EventHostStartGame
                            else Inl (External ''unknown event'')),
     ParseRequestData = (\<lambda>b. if b = ''G'' then Inr TypeGameData
                              else Inl (External ''unknown request'')),
     ParsePlayerData = (\<lambda>b. case b of
        [] \<Rightarrow> Inl (External ''no version'')
      | v # name \<Rightarrow> Inr \<lparr>Version = [v], Username = name\<rparr>),
     SerialiseGameData = (\<lambda>g. Inr (CHR ''G'' # g)),
     SerialiseEventData = (\<lambda>e. if e = EventScreenLoaded then Inr ''Eloaded''
                                else if e = EventHostStartGame then Inr ''Estart''
                                else Inl (External ''unknown event'')),
     SerialiseRequestData = (\<lambda>t. if t = TypeGameData then Inr ''RG''
                                  else Inl (External ''unknown request''))\<rparr>"

text \<open>A join screen on whose channel no goroutine receives.\<close>

definition joiner :: MultiplayerJoinScreen where
  "joiner = \<lparr>opponentName = [], opponentStatus = [],
             hostIsReady = \<lparr>receivers = 0, taken = []\<rparr>\<rparr>"

definition guest :: "nat \<Rightarrow> string MultiplayerScreen" where
  "guest n = \<lparr>backend = ''mine'', opponentBackend = ''theirs'', server = None,
              client = Some \<lparr>written = [], accepts = n\<rparr>\<rparr>"








text \<open>
  Claim C8.  A payload that does not parse as a message, whose type is none of
  \<^verbatim>\<open>GameData\<close>, \<^verbatim>\<open>EventData\<close> and \<^verbatim>\<open>RequestData\<close>, or whose content does not parse for its
  type, makes \<^verbatim>\<open>handleOpponentData\<close> return an error (it does not panic) and leaves the
  whole screen as it was: the local game, the mirror of the opponent, and the connection,
  to which nothing is written.  The error for an unknown type is the one about an
  unsupported message type, the others wrap the parser's error.  The callback logs the
  error and returns.  \<^verbatim>\<open>handleServerData\<close> of the join screen does the same with the
  payloads it cannot decode.
\<close>

theorem C8_undecodable_dropped:
  "(undecodable c data \<longrightarrow>
      (\<exists>err. handleOpponentData c s data = Return s (Some err) \<and>
             opponentDataCallback c text (s, lg) data = Some (s, lg @ [(text, err)]) \<and>
             (case ParseMessage c data of
                Inl e \<Rightarrow> err = Errorf ''failed to parse message'' e
              | Inr msg \<Rightarrow>
                  if Type msg \<in> knownTypes then (\<exists>txt e. err = Errorf txt e)
                  else err = UnsupportedMessageType (Type msg)))) \<and>
   (undecodableJoin c data \<longrightarrow>
      (\<exists>err. handleServerData c version js data = Some (js, Some err)))"
proof (intro conjI impI)
  assume assms: "undecodable c data"
  show "\<exists>err. handleOpponentData c s data = Return s (Some err) \<and>
           opponentDataCallback c text (s, lg) data = Some (s, lg @ [(text, err)]) \<and>
           (case ParseMessage c data of
              Inl e \<Rightarrow> err = Errorf ''failed to parse message'' e
            | Inr msg \<Rightarrow>
                if Type msg \<in> knownTypes then (\<exists>txt e. err = Errorf txt e)
                else err = UnsupportedMessageType (Type msg))"
  proof (cases "ParseMessage c data")
    case (Inl e)
    then show ?thesis by (simp add: handleOpponentData_def opponentDataCallback_def)
  next
    case (Inr msg)
    with assms have u: "Type msg \<notin> knownTypes \<or> contentFails c msg"
      by (simp add: undecodable_def)
    show ?thesis
    proof (cases "Type msg")
      case TypePlayerData
      with Inr show ?thesis
        by (simp add: handleOpponentData_def opponentDataCallback_def knownTypes_def)
    next
      case TypeGameData
      with u obtain e where "ParseGameData c (Content msg) = Inl e"
        by (cases "ParseGameData c (Content msg)") (auto simp: knownTypes_def contentFails_def)
      with Inr TypeGameData show ?thesis
        by (simp add: handleOpponentData_def opponentDataCallback_def knownTypes_def)
    next
      case TypeEventData
      with u obtain e where "ParseEventData c (Content msg) = Inl e"
        by (cases "ParseEventData c (Content msg)") (auto simp: knownTypes_def contentFails_def)
      with Inr TypeEventData show ?thesis
        by (simp add: handleOpponentData_def opponentDataCallback_def knownTypes_def)
    next
      case TypeRequestData
      with u obtain e where "ParseRequestData c (Content msg) = Inl e"
        by (cases "ParseRequestData c (Content msg)") (auto simp: knownTypes_def contentFails_def)
      with Inr TypeRequestData show ?thesis
        by (simp add: handleOpponentData_def opponentDataCallback_def knownTypes_def)
    next
      case (TypeOther x)
      with Inr show ?thesis
        by (simp add: handleOpponentData_def opponentDataCallback_def knownTypes_def)
    qed
  qed
next
  assume "undecodableJoin c data"
  then show "\<exists>err. handleServerData c version js data = Some (js, Some err)"
    by (auto simp: undecodableJoin_def handleServerData_def isl_def
        split: sum.splits messageType.splits)
qed

text \<open>Runs: an unknown type tag, for both screens.\<close>

theorem C8_undecodable_dropped_witness:
  "undecodable testComms ''Xabc'' \<and> undecodable testComms ''Ebogus'' \<and>
   undecodable testComms [] \<and>
   handleOpponentData testComms (guest 5) ''Xabc'' =
     Return (guest 5) (Some (UnsupportedMessageType (TypeOther ''X''))) \<and>
   opponentDataCallback testComms ''log'' (guest 5, []) ''Xabc'' =
     Some (guest 5, [(''log'', UnsupportedMessageType (TypeOther ''X''))]) \<and>
   undecodableJoin testComms ''Gmine'' \<and>
   handleServerData testComms ''1'' joiner ''Gmine'' =
     Some (joiner, Some (UnsupportedMessageType TypeGameData))"
proof -
  have u: "undecodable testComms ''Xabc''" "undecodable testComms ''Ebogus''"
    "undecodable testComms []"
    by (simp_all add: undecodable_def testComms_def knownTypes_def contentFails_def)
  have uj: "undecodableJoin testComms ''Gmine''"
    by (simp add: undecodableJoin_def testComms_def)
  note T = C8_undecodable_dropped[of testComms "''Xabc''" "guest 5" "''log''" "[]"]
  from T u(1)
  obtain err where e: "handleOpponentData testComms (guest 5) ''Xabc'' = Return (guest 5) (Some err)"
    "opponentDataCallback testComms ''log'' (guest 5, []) ''Xabc'' = Some (guest 5, [] @ [(''log'', err)])"
    "(case ParseMessage testComms ''Xabc'' of
              Inl e \<Rightarrow> err = Errorf ''failed to parse message'' e
            | Inr msg \<Rightarrow>
                if Type msg \<in> knownTypes then (\<exists>txt e. err = Errorf txt e)
                else err = UnsupportedMessageType (Type msg))"
    by blast
  from e(3) have "err = UnsupportedMessageType (TypeOther ''X'')"
    by (simp add: testComms_def knownTypes_def)
  with e(1,2) have A: "handleOpponentData testComms (guest 5) ''Xabc'' =
     Return (guest 5) (Some (UnsupportedMessageType (TypeOther ''X'')))"
    "opponentDataCallback testComms ''log'' (guest 5, []) ''Xabc'' =
     Some (guest 5, [(''log'', UnsupportedMessageType (TypeOther ''X''))])" by simp_all
  from C8_undecodable_dropped[of testComms "''Gmine''" "guest 5" "''log''" "[]" "''1''" joiner] uj
  obtain errj where "handleServerData testComms ''1'' joiner ''Gmine'' = Some (joiner, Some errj)"
    by blast
  moreover have "map_option snd (handleServerData testComms ''1'' joiner ''Gmine'') =
                 Some (Some (UnsupportedMessageType TypeGameData))"
    by (simp add: handleServerData_def testComms_def)
  ultimately have "handleServerData testComms ''1'' joiner ''Gmine'' =
                   Some (joiner, Some (UnsupportedMessageType TypeGameData))"
    by simp
  with A u uj show ?thesis by simp
qed

end
